theory Spec2Isabelle
  imports Main "HOL-Library.AList"
begin

section \<open>Strings as the handlers use them\<close>

text \<open>
  JavaScript strings are modelled as \<open>string\<close> (one \<open>char\<close> per code unit; code units
  above 255 are outside the model). The platform is POSIX: \<open>path.sep\<close> is \<open>/\<close> and
  \<open>path\<close> is \<open>path.posix\<close>.
\<close>

definition slash :: char where
  "slash = CHR ''/''"

definition backslash :: char where
  "backslash = CHR 0x5C"

text \<open>\<open>s.startsWith(p)\<close>\<close>

fun startsWith :: "string \<Rightarrow> string \<Rightarrow> bool" where
  "startsWith s [] = True"
| "startsWith [] (p # ps) = False"
| "startsWith (c # cs) (p # ps) = (c = p \<and> startsWith cs ps)"

text \<open>\<open>s.endsWith(p)\<close>\<close>

definition endsWith :: "string \<Rightarrow> string \<Rightarrow> bool" where
  "endsWith s p = startsWith (rev s) (rev p)"

text \<open>\<open>s.split(c)\<close> for a one-character separator: never empty, \<open>"".split(c) = [""]\<close>.\<close>

fun split_on :: "char \<Rightarrow> string \<Rightarrow> string list" where
  "split_on c [] = [[]]"
| "split_on c (x # xs) =
     (if x = c then [] # split_on c xs
      else (case split_on c xs of
              [] \<Rightarrow> [[x]]
            | s # ss \<Rightarrow> (x # s) # ss))"

text \<open>\<open>xs.join(sep)\<close>\<close>

fun join_with :: "string \<Rightarrow> string list \<Rightarrow> string" where
  "join_with sep [] = []"
| "join_with sep [x] = x"
| "join_with sep (x # y # ys) = x @ sep @ join_with sep (y # ys)"

text \<open>\<open>s.replace(/\\/g, "/")\<close>\<close>

definition replace_backslashes :: "string \<Rightarrow> string" where
  "replace_backslashes s = map (\<lambda>c. if c = backslash then slash else c) s"

section \<open>The regular expressions of the scanner\<close>

text \<open>
  Without the \<open>s\<close> flag a dot of a JavaScript regular expression matches every
  character except a line terminator (line feed and carriage return, among the
  characters of the model).
\<close>

definition is_line_terminator :: "char \<Rightarrow> bool" where
  "is_line_terminator c = (c = CHR 0x0A \<or> c = CHR 0x0D)"

text \<open>The character class \<open>[a-z]\<close>.\<close>

definition is_lower :: "char \<Rightarrow> bool" where
  "is_lower c = (c \<in> set ''abcdefghijklmnopqrstuvwxyz'')"

text \<open>
  A lazy run of dots (\<open>.*?\<close>) followed by the rest of the pattern \<open>k\<close>: the rest is
  tried first at every position, and one more character is consumed only when it
  fails. The result is the text the run has consumed and the result of \<open>k\<close>.
\<close>

fun lazy_dots :: "(string \<Rightarrow> 'a option) \<Rightarrow> string \<Rightarrow> string \<Rightarrow> (string \<times> 'a) option" where
  "lazy_dots k acc [] = (case k [] of Some r \<Rightarrow> Some (acc, r) | None \<Rightarrow> None)"
| "lazy_dots k acc (c # cs) =
     (case k (c # cs) of
        Some r \<Rightarrow> Some (acc, r)
      | None \<Rightarrow> if is_line_terminator c then None else lazy_dots k (acc @ [c]) cs)"

text \<open>The tail \<open>\)$\<close> of the group pattern.\<close>

definition close_paren_end :: "string \<Rightarrow> unit option" where
  "close_paren_end s = (if s = '')'' then Some () else None)"

text \<open>\<open>name.match(/^\((.*?)\)$/)\<close>: the captured group, when the name matches.\<close>

definition group_match :: "string \<Rightarrow> string option" where
  "group_match s =
     (case s of
        [] \<Rightarrow> None
      | c # cs \<Rightarrow> if c = CHR ''(''
                 then map_option fst (lazy_dots close_paren_end [] cs)
                 else None)"

text \<open>
  The tail \<open>\.([a-z]+)\.ts$\<close> of the route-file pattern: the greedy run of lowercase
  letters is followed by a dot, so no shorter run can match.
\<close>

definition method_tail :: "string \<Rightarrow> string option" where
  "method_tail s =
     (case s of
        [] \<Rightarrow> None
      | c # cs \<Rightarrow>
          if c = CHR ''.'' \<and> takeWhile is_lower cs \<noteq> [] \<and> dropWhile is_lower cs = ''.ts''
          then Some (takeWhile is_lower cs)
          else None)"

text \<open>
  \<open>name.match(/^(.+?)\.([a-z]+)\.ts$/)\<close>: the two captured groups (file name and
  method), when the name matches. \<open>.+?\<close> consumes one character and then runs lazily.
\<close>

definition route_file_match :: "string \<Rightarrow> (string \<times> string) option" where
  "route_file_match s =
     (case s of
        [] \<Rightarrow> None
      | c # cs \<Rightarrow> if is_line_terminator c then None else lazy_dots method_tail [c] cs)"

section \<open>Node's path module (POSIX)\<close>

text \<open>
  The functions of \<open>path\<close> that the builder calls, after the documented behaviour of
  Node.js. \<open>normalizeString\<close> works segment by segment: empty segments and \<open>.\<close> are
  dropped, \<open>..\<close> removes the segment before it or, above the start of a relative
  path, is kept.
\<close>

definition normalize_step :: "bool \<Rightarrow> string list \<Rightarrow> string \<Rightarrow> string list" where
  "normalize_step allowAboveRoot res seg =
     (if seg = [] \<or> seg = ''.'' then res
      else if seg = ''..'' then
        (if res \<noteq> [] \<and> last res \<noteq> ''..'' then butlast res
         else if allowAboveRoot then res @ [''..'']
         else res)
      else res @ [seg])"

definition normalize_segments :: "bool \<Rightarrow> string \<Rightarrow> string list" where
  "normalize_segments allowAboveRoot p = foldl (normalize_step allowAboveRoot) [] (split_on slash p)"

definition normalizeString :: "string \<Rightarrow> bool \<Rightarrow> string" where
  "normalizeString p allowAboveRoot = join_with ''/'' (normalize_segments allowAboveRoot p)"

definition isAbsolute :: "string \<Rightarrow> bool" where
  "isAbsolute p = (case p of [] \<Rightarrow> False | c # cs \<Rightarrow> c = slash)"

definition normalize :: "string \<Rightarrow> string" where
  "normalize p =
     (if p = [] then ''.''
      else
        let trailingSeparator = (last p = slash);
            q = normalizeString p (\<not> isAbsolute p)
        in if q = [] then
             (if isAbsolute p then ''/'' else if trailingSeparator then ''./'' else ''.'')
           else
             (if isAbsolute p then ''/'' else []) @ q @ (if trailingSeparator then ''/'' else []))"

text \<open>\<open>path.join(...args)\<close>: the non-empty arguments joined by \<open>/\<close>, then normalized.\<close>

definition path_join :: "string list \<Rightarrow> string" where
  "path_join args =
     (case filter (\<lambda>a. a \<noteq> []) args of
        [] \<Rightarrow> ''.''
      | a # as \<Rightarrow> normalize (join_with ''/'' (a # as)))"

text \<open>
  \<open>path.dirname(p)\<close>: the loop of Node runs from the last character down to index 1,
  skips trailing slashes, and cuts the path at the first slash after a non-slash.
\<close>

definition dirname :: "string \<Rightarrow> string" where
  "dirname p =
     (case p of
        [] \<Rightarrow> ''.''
      | c # cs \<Rightarrow>
          let hasRoot = (c = slash);
              b = dropWhile (\<lambda>x. x \<noteq> slash) (dropWhile (\<lambda>x. x = slash) (rev cs))
          in if b = [] then (if hasRoot then ''/'' else ''.'')
             else if hasRoot \<and> length b = 1 then ''//''
             else take (length b) p)"

text \<open>\<open>path.basename(p)\<close>: trailing slashes are skipped, then the last segment taken.\<close>

definition basename :: "string \<Rightarrow> string" where
  "basename p = rev (takeWhile (\<lambda>x. x \<noteq> slash) (dropWhile (\<lambda>x. x = slash) (rev p)))"

text \<open>
  \<open>path.resolve(...args)\<close>: the arguments are taken from the right until one is
  absolute, the working directory last; the result is normalized and has no trailing
  slash.
\<close>

fun resolve_loop :: "string list \<Rightarrow> string \<Rightarrow> string \<times> bool" where
  "resolve_loop [] acc = (acc, False)"
| "resolve_loop (p # ps) acc =
     (if p = [] then resolve_loop ps acc
      else if isAbsolute p then (p @ ''/'' @ acc, True)
      else resolve_loop ps (p @ ''/'' @ acc))"

definition path_resolve :: "string \<Rightarrow> string list \<Rightarrow> string" where
  "path_resolve cwd args =
     (case resolve_loop (rev args @ [cwd]) [] of
        (rp, resolvedAbsolute) \<Rightarrow>
          let q = normalizeString rp (\<not> resolvedAbsolute)
          in if resolvedAbsolute then ''/'' @ q
             else if q \<noteq> [] then q else ''.'')"

text \<open>
  \<open>path.relative(from, to)\<close>: both are resolved; the result climbs with \<open>..\<close> out of
  what is left of \<open>from\<close> after the common segments and descends into the rest of \<open>to\<close>.
\<close>

fun common_prefix_length :: "string list \<Rightarrow> string list \<Rightarrow> nat" where
  "common_prefix_length (x # xs) (y # ys) = (if x = y then Suc (common_prefix_length xs ys) else 0)"
| "common_prefix_length xs ys = 0"

definition path_relative :: "string \<Rightarrow> string \<Rightarrow> string \<Rightarrow> string" where
  "path_relative cwd fromPath toPath =
     (if fromPath = toPath then []
      else
        let fs = normalize_segments False (path_resolve cwd [fromPath]);
            ts = normalize_segments False (path_resolve cwd [toPath]);
            n = common_prefix_length fs ts
        in join_with ''/'' (replicate (length fs - n) ''..'' @ drop n ts))"

section \<open>Data model\<close>

text \<open>The interface \<open>Config\<close>: every option may be absent.\<close>

record Config =
  sourceDirectory :: "string option"
  basePath :: "string option"
  cacheable :: "bool option"
  port :: "nat option"

text \<open>\<open>defaultConfig\<close> of \<open>core/index.ts\<close>.\<close>

definition defaultConfig :: Config where
  "defaultConfig =
     \<lparr>sourceDirectory = Some ''./src'', basePath = Some ''/api'',
      cacheable = Some True, port = Some 3000\<rparr>"

text \<open>
  \<open>config\<close> of \<open>utils/config.rediect.ts\<close>; its interface has no \<open>port\<close>. The route
  builder never reads it.
\<close>

definition utils_config :: Config where
  "utils_config =
     \<lparr>sourceDirectory = Some ''./src'', basePath = Some ''/'',
      cacheable = Some True, port = None\<rparr>"

text \<open>The spread \<open>{ ...d, ...c }\<close>: an option present in \<open>c\<close> wins.\<close>

definition spread_option :: "'a option \<Rightarrow> 'a option \<Rightarrow> 'a option" where
  "spread_option d c = (case c of Some v \<Rightarrow> Some v | None \<Rightarrow> d)"

definition spread_config :: "Config \<Rightarrow> Config \<Rightarrow> Config" where
  "spread_config d c =
     \<lparr>sourceDirectory = spread_option (sourceDirectory d) (sourceDirectory c),
      basePath = spread_option (basePath d) (basePath c),
      cacheable = spread_option (cacheable d) (cacheable c),
      port = spread_option (port d) (port c)\<rparr>"

record RouteDefinition =
  path :: string
  httpMethod :: string
  handlerPath :: string
  middlewares :: "string list"
  params :: "string list option"
  bodyExpected :: "bool option"

record RouteExpectations =
  exp_params :: "string list option"
  exp_bodyExpected :: "bool option"

text \<open>
  A directory entry as \<open>readdirSync\<close> with \<open>withFileTypes\<close> returns it, together with
  what listing it again returns: a directory holds its entries, a locked directory is
  one whose listing throws, and the last kind is neither a file nor a directory.
\<close>

datatype dirent =
    FileEnt string
  | DirEnt string "dirent list"
  | LockedDirEnt string
  | OtherEnt string

fun dirent_name :: "dirent \<Rightarrow> string" where
  "dirent_name (FileEnt n) = n"
| "dirent_name (DirEnt n es) = n"
| "dirent_name (LockedDirEnt n) = n"
| "dirent_name (OtherEnt n) = n"

text \<open>
  What is registered on a server instance, in order: \<open>use\<close> of a middleware, a route
  (method, path, handler), and a \<open>group\<close> with its prefix and what was registered
  inside it. \<open>server\<close> says whether the instance is listening. An instance is taken
  together with the record of the \<open>stop\<close> and \<open>listen\<close> calls made so far.
\<close>

datatype registration =
    Use string
  | Route string string string
  | Group string "registration list"

record app =
  server :: bool
  registrations :: "registration list"

datatype server_op = Stop | Listen nat

type_synonym server_instance = "app \<times> server_op list"

text \<open>
  What the builder reads from its surroundings while it handles one event: the working
  directory, the file system (\<open>readdirSync\<close> and every module load answer \<open>None\<close> where
  the call throws), the default exports of the modules, and the members of a server
  instance: \<open>instance_function e m\<close> is \<open>None\<close> when \<open>routeApp[m]\<close> is not a function,
  and otherwise what the call \<open>routeApp[m](path, handler)\<close> does to the instance.
\<close>

record env =
  cwd :: string
  existsSync :: "string \<Rightarrow> bool"
  readdirSync :: "string \<Rightarrow> dirent list option"
  load_expectations :: "string \<Rightarrow> RouteExpectations option option"
  load_handler :: "string \<Rightarrow> string option"
  load_middleware :: "string \<Rightarrow> string option"
  instance_function :: "string \<Rightarrow> (string \<Rightarrow> string \<Rightarrow> server_instance \<Rightarrow> server_instance) option"

datatype scan_error = ReaddirFailed string

type_synonym expectations_cache = "string \<rightharpoonup> RouteExpectations option"

section \<open>parseRouteFile\<close>

text \<open>\<open>s.toLowerCase()\<close> on the letters A to Z.\<close>

definition toLowerCase :: "string \<Rightarrow> string" where
  "toLowerCase s =
     map (\<lambda>c. if 65 \<le> (of_char c :: nat) \<and> (of_char c :: nat) \<le> 90
              then char_of (of_char c + (32::nat)) else c) s"

text \<open>A parenthesized segment is replaced by what its parentheses hold.\<close>

definition strip_group :: "string \<Rightarrow> string" where
  "strip_group segment = (case group_match segment of Some g \<Rightarrow> g | None \<Rightarrow> segment)"

text \<open>
  The loop that collects the middleware of the parent directories. It steps to the
  parent first and tests for the source directory afterwards; it does not return when
  the chain of parents reaches \<open>/\<close> without meeting the source directory, which is the
  value \<open>None\<close>.
\<close>

partial_function (option) collect_parent_middlewares ::
  "(string \<Rightarrow> bool) \<Rightarrow> string \<Rightarrow> string \<Rightarrow> string list \<Rightarrow> string list option" where
  "collect_parent_middlewares ex src parentDir acc =
     (if parentDir \<noteq> src \<and> parentDir \<noteq> ''.'' then
        collect_parent_middlewares ex src (dirname parentDir)
          (if ex (path_join [dirname parentDir, ''middleware.ts''])
           then acc @ [path_join [dirname parentDir, ''middleware.ts'']]
           else acc)
      else Some acc)"

declare collect_parent_middlewares.simps [code]

text \<open>
  \<open>parseRouteFile\<close>: \<open>None\<close> when the call does not return, \<open>Some None\<close> when it
  returns \<open>null\<close>.
\<close>

definition parseRouteFile ::
  "env \<Rightarrow> string \<Rightarrow> string \<Rightarrow> string \<Rightarrow> string option \<Rightarrow> RouteExpectations option
     \<Rightarrow> RouteDefinition option option" where
  "parseRouteFile e src filePath base localMiddleware expectations =
     (case route_file_match (basename filePath) of
        None \<Rightarrow> Some None
      | Some (fileName, m) \<Rightarrow>
          let base1 =
                (if base = [] then
                   join_with ''/'' (map strip_group (split_on slash
                     (''/'' @ join_with ''/'' (split_on slash
                        (path_relative (cwd e) src (dirname filePath))))))
                 else base);
              routePath =
                (if fileName \<noteq> ''index''
                 then replace_backslashes (path_join [base1, fileName])
                 else base1)
          in case collect_parent_middlewares (existsSync e) src (dirname filePath)
                    (case localMiddleware of Some mw \<Rightarrow> [mw] | None \<Rightarrow> []) of
               None \<Rightarrow> None
             | Some mws \<Rightarrow>
                 Some (Some
                   \<lparr>path = routePath, httpMethod = toLowerCase m, handlerPath = filePath,
                    middlewares = mws,
                    params = (case expectations of
                                Some x \<Rightarrow> exp_params x | None \<Rightarrow> None),
                    bodyExpected = (case expectations of
                                Some x \<Rightarrow> exp_bodyExpected x | None \<Rightarrow> None)\<rparr>))"

section \<open>scanDirectory\<close>

text \<open>
  A scan returns the expectations cache as it has left it and either the routes or the
  error it has rethrown; \<open>None\<close> when it does not return. \<open>scan_listing\<close> is the body of
  \<open>scanDirectory\<close> given what \<open>readdirSync\<close> answers for the directory, \<open>scan_entries\<close>
  its loop over the entries.
\<close>

type_synonym scan_result = "(expectations_cache \<times> (scan_error + RouteDefinition list)) option"

definition then_routes :: "RouteDefinition list \<Rightarrow> scan_result \<Rightarrow> scan_result" where
  "then_routes found rest =
     (case rest of
        None \<Rightarrow> None
      | Some (c, Inl err) \<Rightarrow> Some (c, Inl err)
      | Some (c, Inr rs) \<Rightarrow> Some (c, Inr (found @ rs)))"

fun scan_listing ::
      "env \<Rightarrow> string \<Rightarrow> expectations_cache \<Rightarrow> string \<Rightarrow> string \<Rightarrow> dirent list option
         \<Rightarrow> scan_result"
  and scan_entries ::
      "env \<Rightarrow> string \<Rightarrow> expectations_cache \<Rightarrow> string \<Rightarrow> string \<Rightarrow> string option
         \<Rightarrow> RouteExpectations option \<Rightarrow> dirent list \<Rightarrow> scan_result" where
  "scan_listing e src cache dirPath base None =
     (if \<not> existsSync e dirPath then Some (cache, Inr [])
      else Some (cache, Inl (ReaddirFailed dirPath)))"
| "scan_listing e src cache dirPath base (Some entries) =
     (if \<not> existsSync e dirPath then Some (cache, Inr [])
      else
        let middlewarePath = path_join [dirPath, ''middleware.ts''];
            expectationsPath = path_join [dirPath, ''expectations.ts''];
            localMiddleware =
              (if existsSync e middlewarePath then Some middlewarePath else None);
            loaded =
              (if existsSync e expectationsPath then load_expectations e expectationsPath
               else None);
            cache1 = (case loaded of Some x \<Rightarrow> cache(dirPath \<mapsto> x) | None \<Rightarrow> cache);
            expectations =
              (case loaded of
                 Some (Some x) \<Rightarrow> Some x
               | _ \<Rightarrow> (case cache1 dirPath of Some v \<Rightarrow> v | None \<Rightarrow> None))
        in scan_entries e src cache1 dirPath base localMiddleware expectations entries)"
| "scan_entries e src cache dirPath base lm ex [] = Some (cache, Inr [])"
| "scan_entries e src cache dirPath base lm ex (FileEnt n # es) =
     (if startsWith n ''_'' then scan_entries e src cache dirPath base lm ex es
      else if endsWith n ''.ts'' then
        (if n = ''middleware.ts'' \<or> n = ''expectations.ts''
         then scan_entries e src cache dirPath base lm ex es
         else
           (case parseRouteFile e src (path_join [dirPath, n]) base lm ex of
              None \<Rightarrow> None
            | Some None \<Rightarrow> scan_entries e src cache dirPath base lm ex es
            | Some (Some r) \<Rightarrow> then_routes [r] (scan_entries e src cache dirPath base lm ex es)))
      else scan_entries e src cache dirPath base lm ex es)"
| "scan_entries e src cache dirPath base lm ex (DirEnt n children # es) =
     (if startsWith n ''_'' then scan_entries e src cache dirPath base lm ex es
      else
        (case scan_listing e src cache (path_join [dirPath, n])
                (replace_backslashes (path_join [base, strip_group n])) (Some children) of
           None \<Rightarrow> None
         | Some (c, Inl err) \<Rightarrow> Some (c, Inl err)
         | Some (c, Inr subRoutes) \<Rightarrow>
             then_routes subRoutes (scan_entries e src c dirPath base lm ex es)))"
| "scan_entries e src cache dirPath base lm ex (LockedDirEnt n # es) =
     (if startsWith n ''_'' then scan_entries e src cache dirPath base lm ex es
      else
        (case scan_listing e src cache (path_join [dirPath, n])
                (replace_backslashes (path_join [base, strip_group n])) None of
           None \<Rightarrow> None
         | Some (c, Inl err) \<Rightarrow> Some (c, Inl err)
         | Some (c, Inr subRoutes) \<Rightarrow>
             then_routes subRoutes (scan_entries e src c dirPath base lm ex es)))"
| "scan_entries e src cache dirPath base lm ex (OtherEnt n # es) =
     (if startsWith n ''_'' then scan_entries e src cache dirPath base lm ex es
      else scan_entries e src cache dirPath base lm ex es)"

text \<open>\<open>scanDirectory(dirPath, basePath)\<close> as the builder calls it.\<close>

definition scanDirectory ::
  "env \<Rightarrow> string \<Rightarrow> expectations_cache \<Rightarrow> string \<Rightarrow> string \<Rightarrow> scan_result" where
  "scanDirectory e src cache dirPath base =
     scan_listing e src cache dirPath base (readdirSync e dirPath)"

section \<open>The builder and its server\<close>

text \<open>
  The fields of \<open>EnhancedRouteBuilder\<close>. The map of routes keeps the order of
  insertion, as a JavaScript \<open>Map\<close> does. \<open>server_ops\<close> records every \<open>stop\<close> and
  \<open>listen\<close> the builder has called.
\<close>

record builder =
  app :: app
  config :: Config
  routes :: "(string \<times> RouteDefinition) list"
  middlewareCache :: "string \<rightharpoonup> string"
  expectationsCache :: expectations_cache
  projectRoot :: string
  server_ops :: "server_op list"

definition source_dir :: "builder \<Rightarrow> string" where
  "source_dir b = (case sourceDirectory (config b) of Some s \<Rightarrow> s | None \<Rightarrow> [])"

text \<open>
  The constructor: the configuration defaults to \<open>defaultConfig\<close>, is spread over it,
  and a relative source directory is resolved against the working directory.
\<close>

definition effective_config :: "env \<Rightarrow> Config option \<Rightarrow> Config" where
  "effective_config e given =
     (let c = spread_config defaultConfig (case given of Some g \<Rightarrow> g | None \<Rightarrow> defaultConfig)
      in case sourceDirectory c of
           None \<Rightarrow> c
         | Some s \<Rightarrow>
             if \<not> isAbsolute s
             then c\<lparr>sourceDirectory := Some (path_resolve (cwd e) [cwd e, s])\<rparr>
             else c)"

definition new_builder :: "env \<Rightarrow> app \<Rightarrow> Config option \<Rightarrow> builder" where
  "new_builder e a given =
     \<lparr>app = a, config = effective_config e given, routes = [],
      middlewareCache = Map.empty, expectationsCache = Map.empty,
      projectRoot = cwd e, server_ops = []\<rparr>"

subsection \<open>applyRouteToApp and rebuildApp\<close>

text \<open>
  The functions of a server instance: \<open>use\<close>, the registration of a route under a
  method, and \<open>stop\<close>, which stops a listening instance: the call is recorded and the
  instance's \<open>server\<close> is cleared by the call itself, before the promise that \<open>stop\<close>
  returns is settled. The arguments of \<open>stop\<close> have no part in this.
\<close>

definition use_middleware :: "string \<Rightarrow> server_instance \<Rightarrow> server_instance" where
  "use_middleware mw t =
     (case t of (a, ops) \<Rightarrow> (a\<lparr>registrations := registrations a @ [Use mw]\<rparr>, ops))"

definition register_route :: "string \<Rightarrow> string \<Rightarrow> string \<Rightarrow> server_instance \<Rightarrow> server_instance" where
  "register_route m p handler t =
     (case t of (a, ops) \<Rightarrow> (a\<lparr>registrations := registrations a @ [Route m p handler]\<rparr>, ops))"

definition stop_server :: "string \<Rightarrow> string \<Rightarrow> server_instance \<Rightarrow> server_instance" where
  "stop_server p handler t =
     (case t of (a, ops) \<Rightarrow> if server a then (a\<lparr>server := False\<rparr>, ops @ [Stop]) else (a, ops))"

text \<open>
  The loop over the middleware of a route: a middleware that fails to load is skipped,
  a loaded one is cached and used.
\<close>

fun apply_middlewares ::
  "env \<Rightarrow> (string \<rightharpoonup> string) \<Rightarrow> server_instance \<Rightarrow> string list
     \<Rightarrow> (string \<rightharpoonup> string) \<times> server_instance" where
  "apply_middlewares e mc t [] = (mc, t)"
| "apply_middlewares e mc t (mwPath # rest) =
     (case mc mwPath of
        Some mw \<Rightarrow> apply_middlewares e mc (use_middleware mw t) rest
      | None \<Rightarrow>
          (case load_middleware e mwPath of
             None \<Rightarrow> apply_middlewares e mc t rest
           | Some mw \<Rightarrow> apply_middlewares e (mc(mwPath \<mapsto> mw)) (use_middleware mw t) rest))"

text \<open>
  \<open>applyRouteToApp(route, app)\<close>: a handler that fails to load leaves the instance as
  it is; otherwise the middleware is applied and, when the instance has a function
  under the name of the method, that function is called with the path and the handler.
\<close>

definition applyRouteToApp ::
  "env \<Rightarrow> (string \<rightharpoonup> string) \<Rightarrow> RouteDefinition \<Rightarrow> server_instance
     \<Rightarrow> (string \<rightharpoonup> string) \<times> server_instance" where
  "applyRouteToApp e mc route t =
     (case load_handler e (handlerPath route) of
        None \<Rightarrow> (mc, t)
      | Some handler \<Rightarrow>
          (case apply_middlewares e mc t (middlewares route) of
             (mc1, t1) \<Rightarrow>
               (case instance_function e (toLowerCase (httpMethod route)) of
                  Some f \<Rightarrow> (mc1, f (path route) handler t1)
                | None \<Rightarrow> (mc1, t1))))"

fun apply_all_routes ::
  "env \<Rightarrow> (string \<rightharpoonup> string) \<Rightarrow> server_instance \<Rightarrow> RouteDefinition list
     \<Rightarrow> (string \<rightharpoonup> string) \<times> server_instance" where
  "apply_all_routes e mc t [] = (mc, t)"
| "apply_all_routes e mc t (r # rs) =
     (case applyRouteToApp e mc r t of
        (mc1, t1) \<Rightarrow> apply_all_routes e mc1 t1 rs)"

text \<open>
  \<open>rebuildApp\<close> in its two parts. Up to its \<open>await\<close>: a new instance with every route
  of the table applied inside the group of the base path, and the call of \<open>stop\<close> on
  the live instance when that is listening. After it: the new instance listens and
  becomes the live one.
\<close>

definition rebuild_begin :: "env \<Rightarrow> builder \<Rightarrow> builder \<times> app" where
  "rebuild_begin e b =
     (case apply_all_routes e (middlewareCache b)
             (\<lparr>server = False, registrations = []\<rparr>, server_ops b) (map snd (routes b)) of
        (mc, (grp, ops)) \<Rightarrow>
          (case (if server (app b) then stop_server [] [] (app b, ops) else (app b, ops)) of
             (a, ops1) \<Rightarrow>
               (b\<lparr>middlewareCache := mc, app := a, server_ops := ops1\<rparr>,
                \<lparr>server = False,
                 registrations =
                   [Group (case basePath (config b) of Some p \<Rightarrow> p | None \<Rightarrow> [])
                      (registrations grp)]\<rparr>)))"

definition rebuild_finish :: "builder \<Rightarrow> app \<Rightarrow> builder" where
  "rebuild_finish b newApp =
     b\<lparr>app := newApp\<lparr>server := True\<rparr>,
       server_ops :=
         server_ops b @ [Listen (case port (config b) of
                                   Some n \<Rightarrow> if n = 0 then 3000 else n
                                 | None \<Rightarrow> 3000)]\<rparr>"

definition rebuildApp :: "env \<Rightarrow> builder \<Rightarrow> builder" where
  "rebuildApp e b = (case rebuild_begin e b of (b1, newApp) \<Rightarrow> rebuild_finish b1 newApp)"

subsection \<open>The handlers of the watcher's events\<close>

text \<open>The loop that deletes every route whose key starts with \<open>dirPath\<close>.\<close>

definition delete_routes_under ::
  "string \<Rightarrow> (string \<times> RouteDefinition) list \<Rightarrow> (string \<times> RouteDefinition) list" where
  "delete_routes_under dirPath rs = filter (\<lambda>(filePath, r). \<not> startsWith filePath dirPath) rs"

text \<open>The loop \<open>this.routes.set(route.handlerPath, route)\<close> over the scanned routes.\<close>

definition set_routes ::
  "RouteDefinition list \<Rightarrow> (string \<times> RouteDefinition) list \<Rightarrow> (string \<times> RouteDefinition) list" where
  "set_routes found rs = foldl (\<lambda>m r. AList.update (handlerPath r) r m) rs found"

definition has_route :: "builder \<Rightarrow> string \<Rightarrow> bool" where
  "has_route b filePath = (map_of (routes b) filePath \<noteq> None)"

text \<open>
  A handler returns the builder as it has left it and the error its promise is
  rejected with, if any; \<open>None\<close> when it does not return.
\<close>

type_synonym reaction = "(builder \<times> scan_error option) option"

definition rebuildDirectoryRoutes :: "env \<Rightarrow> builder \<Rightarrow> string \<Rightarrow> reaction" where
  "rebuildDirectoryRoutes e b dirPath =
     (let b1 = b\<lparr>routes := delete_routes_under dirPath (routes b)\<rparr>
      in case scanDirectory e (source_dir b1) (expectationsCache b1) dirPath [] of
           None \<Rightarrow> None
         | Some (c, Inl err) \<Rightarrow> Some (b1\<lparr>expectationsCache := c\<rparr>, Some err)
         | Some (c, Inr found) \<Rightarrow>
             Some (rebuildApp e
                     (b1\<lparr>expectationsCache := c, routes := set_routes found (routes b1)\<rparr>),
                   None))"

definition handleFileChange :: "env \<Rightarrow> builder \<Rightarrow> string \<Rightarrow> reaction" where
  "handleFileChange e b filePath =
     (if basename filePath = ''middleware.ts'' then
        rebuildDirectoryRoutes e b (dirname filePath)
      else if basename filePath = ''expectations.ts'' then
        rebuildDirectoryRoutes e
          (b\<lparr>expectationsCache := (expectationsCache b)(dirname filePath := None)\<rparr>)
          (dirname filePath)
      else
        (case parseRouteFile e (source_dir b) filePath [] None None of
           None \<Rightarrow> None
         | Some None \<Rightarrow> Some (b, None)
         | Some (Some route) \<Rightarrow>
             (case applyRouteToApp e (middlewareCache b) route (app b, server_ops b) of
                (mc, (a, ops)) \<Rightarrow>
                  Some (b\<lparr>routes := AList.update filePath route (routes b),
                          middlewareCache := mc, app := a, server_ops := ops\<rparr>,
                        None))))"

definition handleFileRemoval :: "env \<Rightarrow> builder \<Rightarrow> string \<Rightarrow> builder" where
  "handleFileRemoval e b filePath =
     (if has_route b filePath
      then rebuildApp e (b\<lparr>routes := AList.delete filePath (routes b)\<rparr>)
      else b)"

definition handleDirectoryRemoval :: "env \<Rightarrow> builder \<Rightarrow> string \<Rightarrow> builder" where
  "handleDirectoryRemoval e b dirPath =
     rebuildApp e (b\<lparr>routes := delete_routes_under dirPath (routes b)\<rparr>)"

text \<open>\<open>buildRoutes\<close> catches and logs the error of the scan.\<close>

definition buildRoutes :: "env \<Rightarrow> builder \<Rightarrow> builder option" where
  "buildRoutes e b =
     (case scanDirectory e (source_dir b) (expectationsCache b) (source_dir b) [] of
        None \<Rightarrow> None
      | Some (c, Inl err) \<Rightarrow> Some (b\<lparr>expectationsCache := c\<rparr>)
      | Some (c, Inr found) \<Rightarrow>
          Some (rebuildApp e (b\<lparr>expectationsCache := c, routes := set_routes found []\<rparr>)))"

definition start :: "env \<Rightarrow> builder \<Rightarrow> builder option" where
  "start e b = buildRoutes e b"

subsection \<open>The watcher\<close>

text \<open>
  The predicate \<open>ignored\<close> given to the watcher; \<open>stats\<close> is \<open>None\<close> when the watcher
  passes none, and otherwise says whether the path is a file.
\<close>

definition ignored :: "string \<Rightarrow> bool option \<Rightarrow> bool" where
  "ignored filePath stats =
     (if stats = Some True \<and> \<not> endsWith filePath ''.ts'' then True
      else list_ex (\<lambda>seg. startsWith seg ''_'') (split_on slash filePath))"

datatype fs_event =
    Add string
  | Change string
  | Unlink string
  | UnlinkDir string
  | WatcherError

text \<open>The watcher emits no event for a path that \<open>ignored\<close> accepts.\<close>

fun watcher_emits :: "fs_event \<Rightarrow> bool" where
  "watcher_emits (Add p) = (\<not> ignored p (Some True))"
| "watcher_emits (Change p) = (\<not> ignored p (Some True))"
| "watcher_emits (Unlink p) = (\<not> ignored p None)"
| "watcher_emits (UnlinkDir p) = (\<not> ignored p None)"
| "watcher_emits WatcherError = True"

text \<open>\<open>setupWatchers\<close>: the handler of each kind of event.\<close>

fun setupWatchers :: "env \<Rightarrow> builder \<Rightarrow> fs_event \<Rightarrow> reaction" where
  "setupWatchers e b (Add p) = handleFileChange e b p"
| "setupWatchers e b (Change p) = handleFileChange e b p"
| "setupWatchers e b (Unlink p) = Some (handleFileRemoval e b p, None)"
| "setupWatchers e b (UnlinkDir p) = Some (handleDirectoryRemoval e b p, None)"
| "setupWatchers e b WatcherError = Some (b, None)"

text \<open>
  The builder over a sequence of events, each with the surroundings at its time and
  handled to its end before the next.
\<close>

fun react :: "builder \<Rightarrow> (env \<times> fs_event) list \<Rightarrow> builder option" where
  "react b [] = Some b"
| "react b ((e, ev) # rest) =
     (if watcher_emits ev then
        (case setupWatchers e b ev of
           None \<Rightarrow> None
         | Some (b1, err) \<Rightarrow> react b1 rest)
      else react b rest)"

subsection \<open>Reactions that overlap\<close>










section \<open>Vocabulary of the statements\<close>

text \<open>
  A plain segment is a name as a directory listing returns it: not empty, without a
  slash, and neither \<open>.\<close> nor \<open>..\<close>. \<open>abs_path\<close> is the absolute path with the given
  segments.
\<close>

definition plain_segment :: "string \<Rightarrow> bool" where
  "plain_segment n = (n \<noteq> [] \<and> slash \<notin> set n \<and> n \<noteq> ''.'' \<and> n \<noteq> ''..'')"

definition abs_path :: "string list \<Rightarrow> string" where
  "abs_path segs = concat (map (\<lambda>s. slash # s) segs)"

text \<open>
  Surroundings for the examples: the working directory \<open>/app\<close>, the paths that exist,
  the listings of the directories that are scanned, modules that load, and a server
  instance with the usual route methods and with \<open>stop\<close>.
\<close>

definition demo_env :: "string list \<Rightarrow> (string \<times> dirent list) list \<Rightarrow> env" where
  "demo_env present listings =
     \<lparr>cwd = ''/app'', existsSync = (\<lambda>p. p \<in> set present), readdirSync = map_of listings,
      load_expectations = (\<lambda>p. None), load_handler = (\<lambda>p. Some p),
      load_middleware = (\<lambda>p. Some p),
      instance_function =
        (\<lambda>m. if m \<in> set [''get'', ''post'', ''put'', ''delete'', ''patch'']
             then Some (register_route m)
             else if m = ''stop'' then Some stop_server else None)\<rparr>"

definition demo_route :: "string \<Rightarrow> string \<Rightarrow> RouteDefinition" where
  "demo_route p h =
     \<lparr>path = p, httpMethod = ''get'', handlerPath = h, middlewares = [],
      params = None, bodyExpected = None\<rparr>"

text \<open>A builder on \<open>/app/src\<close> with a listening server and the given table.\<close>

definition demo_builder :: "(string \<times> RouteDefinition) list \<Rightarrow> builder" where
  "demo_builder rs =
     \<lparr>app = \<lparr>server = True, registrations = [Group ''/api'' []]\<rparr>,
      config = defaultConfig\<lparr>sourceDirectory := Some ''/app/src''\<rparr>,
      routes = rs, middlewareCache = Map.empty, expectationsCache = Map.empty,
      projectRoot = ''/app'', server_ops = [Listen 3000]\<rparr>"

text \<open>
  The handles that the middleware loop of a route uses, in the order of the chain: the
  cached handle, or the loaded one, of every middleware that is cached or loads.
\<close>

fun used_middlewares :: "env \<Rightarrow> (string \<rightharpoonup> string) \<Rightarrow> string list \<Rightarrow> string list" where
  "used_middlewares e mc [] = []"
| "used_middlewares e mc (mwPath # rest) =
     (case mc mwPath of
        Some mw \<Rightarrow> mw # used_middlewares e mc rest
      | None \<Rightarrow>
          (case load_middleware e mwPath of
             None \<Rightarrow> used_middlewares e mc rest
           | Some mw \<Rightarrow> mw # used_middlewares e (mc(mwPath \<mapsto> mw)) rest))"

text \<open>
  A readable entry holds no directory whose listing throws. The core of a route is what
  does not depend on expectations; the shape of a scan result forgets the cache and
  keeps the error or the cores of the routes. A result is no error when it is not a
  rethrown error.
\<close>

fun readable :: "dirent \<Rightarrow> bool" where
  "readable (FileEnt n) = True"
| "readable (DirEnt n es) = list_all readable es"
| "readable (LockedDirEnt n) = False"
| "readable (OtherEnt n) = True"

definition route_core :: "RouteDefinition \<Rightarrow> string \<times> string \<times> string \<times> string list" where
  "route_core r = (path r, httpMethod r, handlerPath r, middlewares r)"

definition scan_shape ::
  "scan_result \<Rightarrow> (scan_error + (string \<times> string \<times> string \<times> string list) list) option" where
  "scan_shape res =
     (case res of
        None \<Rightarrow> None
      | Some (c, Inl err) \<Rightarrow> Some (Inl err)
      | Some (c, Inr rs) \<Rightarrow> Some (Inr (map route_core rs)))"

definition no_error :: "scan_result \<Rightarrow> bool" where
  "no_error res = (case res of Some (c, Inl err) \<Rightarrow> False | _ \<Rightarrow> True)"

text \<open>
  A plain entry has plain names throughout. The directories above \<open>S/ns\<close> up to the
  source directory \<open>S\<close>, nearest first, are its \<open>ancestor_dirs\<close>. \<open>chain_with_root\<close> is
  the chain of a handler in the directory \<open>S/ns\<close> as the scan computes it: the
  declaration of that directory, then those of every directory above it up to and
  including the source directory. \<open>claimed_chain\<close> is the chain in the words of the
  specification, which leaves the source directory out of the directories above.
\<close>

fun plain_entry :: "dirent \<Rightarrow> bool" where
  "plain_entry (FileEnt n) = plain_segment n"
| "plain_entry (DirEnt n es) = (plain_segment n \<and> list_all plain_entry es)"
| "plain_entry (LockedDirEnt n) = plain_segment n"
| "plain_entry (OtherEnt n) = plain_segment n"

definition ancestor_dirs :: "string list \<Rightarrow> string list \<Rightarrow> string list" where
  "ancestor_dirs S ns = map (\<lambda>i. abs_path (S @ take i ns)) (rev [0..<length ns])"

definition chain_with_root :: "(string \<Rightarrow> bool) \<Rightarrow> string list \<Rightarrow> string list \<Rightarrow> string list" where
  "chain_with_root ex S ns =
     filter ex (map (\<lambda>d. d @ ''/middleware.ts'') (abs_path (S @ ns) # ancestor_dirs S ns))"

definition claimed_chain :: "(string \<Rightarrow> bool) \<Rightarrow> string list \<Rightarrow> string list \<Rightarrow> string list" where
  "claimed_chain ex S ns =
     filter ex (map (\<lambda>d. d @ ''/middleware.ts'') (abs_path (S @ ns) # butlast (ancestor_dirs S ns)))"

text \<open>
  The local middleware the scan of a directory passes on; what a scan below \<open>S/ns0\<close>
  promises for a route and for its result.
\<close>

definition local_middleware :: "env \<Rightarrow> string \<Rightarrow> string option" where
  "local_middleware e d =
     (if existsSync e (path_join [d, ''middleware.ts''])
      then Some (path_join [d, ''middleware.ts'']) else None)"

definition chain_ok :: "env \<Rightarrow> string list \<Rightarrow> string list \<Rightarrow> RouteDefinition \<Rightarrow> bool" where
  "chain_ok e S ns0 r =
     (\<exists>ns fname. (\<forall>n\<in>set ns. plain_segment n) \<and> plain_segment fname \<and>
        handlerPath r = abs_path (S @ ns0 @ ns @ [fname]) \<and>
        middlewares r = chain_with_root (existsSync e) S (ns0 @ ns))"

definition scan_ok :: "env \<Rightarrow> string list \<Rightarrow> string list \<Rightarrow> scan_result \<Rightarrow> bool" where
  "scan_ok e S ns0 res =
     (\<exists>c x. res = Some (c, x) \<and> (\<forall>rs. x = Inr rs \<longrightarrow> (\<forall>r\<in>set rs. chain_ok e S ns0 r)))"

text \<open>The tree of the middleware example: three directories, each with a declaration.\<close>

definition chain_tree :: "dirent list" where
  "chain_tree =
     [FileEnt ''middleware.ts'',
      DirEnt ''a'' [FileEnt ''middleware.ts'',
        DirEnt ''b'' [FileEnt ''middleware.ts'', FileEnt ''x.get.ts'']]]"

definition chain_env :: env where
  "chain_env =
     demo_env
       [''/app/src'', ''/app/src/middleware.ts'', ''/app/src/a'', ''/app/src/a/middleware.ts'',
        ''/app/src/a/b'', ''/app/src/a/b/middleware.ts'', ''/app/src/a/b/x.get.ts'']
       [(''/app/src'', chain_tree)]"





text \<open>
  The places where a scan of the entries \<open>es\<close> of the directory \<open>d\<close> with base path \<open>b\<close>
  calls \<open>parseRouteFile\<close>: the directory, the base path and the name of the file. A
  route comes from one of them when \<open>parseRouteFile\<close> returns it there.
\<close>

fun scan_sites :: "string \<Rightarrow> string \<Rightarrow> dirent list \<Rightarrow> (string \<times> string \<times> string) list" where
  "scan_sites d b [] = []"
| "scan_sites d b (FileEnt n # es) =
     (if \<not> startsWith n ''_'' \<and> endsWith n ''.ts'' \<and> n \<noteq> ''middleware.ts'' \<and>
         n \<noteq> ''expectations.ts''
      then [(d, b, n)] else []) @ scan_sites d b es"
| "scan_sites d b (DirEnt n children # es) =
     (if startsWith n ''_'' then []
      else scan_sites (path_join [d, n]) (replace_backslashes (path_join [b, strip_group n]))
             children) @ scan_sites d b es"
| "scan_sites d b (LockedDirEnt n # es) = scan_sites d b es"
| "scan_sites d b (OtherEnt n # es) = scan_sites d b es"

definition came_from ::
  "env \<Rightarrow> string \<Rightarrow> (string \<times> string \<times> string) list \<Rightarrow> RouteDefinition \<Rightarrow> bool" where
  "came_from e src sites r =
     (\<exists>d b n ex. (d, b, n) \<in> set sites \<and>
        parseRouteFile e src (path_join [d, n]) b (local_middleware e d) ex = Some (Some r))"

definition routes_from ::
  "env \<Rightarrow> string \<Rightarrow> (string \<times> string \<times> string) list \<Rightarrow> scan_result \<Rightarrow> bool" where
  "routes_from e src sites res =
     (\<forall>c rs. res = Some (c, Inr rs) \<longrightarrow> (\<forall>r\<in>set rs. came_from e src sites r))"












text \<open>
  A path has a segment that begins with \<open>_\<close>: the test that \<open>ignored\<close> makes on every
  path. A key of the table is clean when no segment of it begins with \<open>_\<close>, or when it
  starts with the source directory and no segment of what follows begins with \<open>_\<close>:
  then no entry on the way from the source directory to the file begins with \<open>_\<close>.
\<close>

definition has_ignored :: "string \<Rightarrow> bool" where
  "has_ignored p = list_ex (\<lambda>seg. startsWith seg ''_'') (split_on slash p)"

definition clean_key :: "string \<Rightarrow> string \<Rightarrow> bool" where
  "clean_key src k =
     (\<not> has_ignored k \<or> (startsWith k src \<and> \<not> has_ignored (drop (length src) k)))"

definition clean_table :: "builder \<Rightarrow> bool" where
  "clean_table b = list_all (clean_key (source_dir b)) (map fst (routes b))"

text \<open>
  Every listing that \<open>readdirSync\<close> answers holds names as a file system has them. The
  builder after \<open>start\<close> and a sequence of events, each handled to its end.
\<close>

definition plain_listing :: "env \<Rightarrow> bool" where
  "plain_listing e = (\<forall>p es. readdirSync e p = Some es \<longrightarrow> list_all plain_entry es)"

definition started_then :: "env \<Rightarrow> builder \<Rightarrow> (env \<times> fs_event) list \<Rightarrow> builder option" where
  "started_then e0 b evs = (case start e0 b of None \<Rightarrow> None | Some b1 \<Rightarrow> react b1 evs)"

text \<open>
  The example of the entries that begin with \<open>_\<close>: a directory \<open>_private\<close> with a
  handler, handlers \<open>_y.get.ts\<close> and \<open>users/_z.get.ts\<close>, and two handlers with plain
  names; then events for two of the ignored paths, a change of the middleware of
  \<open>users\<close> and a new handler \<open>b.get.ts\<close>.
\<close>

definition underscore_tree :: "dirent list" where
  "underscore_tree =
     [DirEnt ''_private'' [FileEnt ''x.get.ts''],
      FileEnt ''_y.get.ts'',
      FileEnt ''a.get.ts'',
      DirEnt ''users'' [FileEnt ''_z.get.ts'', FileEnt ''list.get.ts'']]"

definition underscore_env :: env where
  "underscore_env =
     demo_env [''/app/src'', ''/app/src/_private'', ''/app/src/users'']
       [(''/app/src'', underscore_tree),
        (''/app/src/users'', [FileEnt ''_z.get.ts'', FileEnt ''list.get.ts''])]"

definition underscore_events :: "(env \<times> fs_event) list" where
  "underscore_events =
     [(underscore_env, Add ''/app/src/_private/x.get.ts''),
      (underscore_env, Add ''/app/src/users/_z.get.ts''),
      (underscore_env, Change ''/app/src/users/middleware.ts''),
      (underscore_env, Add ''/app/src/b.get.ts'')]"

section \<open>Paths with plain segments\<close>

lemma split_on_nonempty: "split_on c s \<noteq> []"
  by (induction s) (auto split: list.splits)

lemma split_on_free: "c \<notin> set a \<Longrightarrow> split_on c a = [a]"
  by (induction a) auto

lemma split_on_free_append: "c \<notin> set a \<Longrightarrow> split_on c (a @ c # b) = a # split_on c b"
  by (induction a) auto

lemma split_abs_path:
  "\<forall>s\<in>set segs. slash \<notin> set s \<Longrightarrow> split_on slash (abs_path segs) = [] # segs"
proof (induction segs)
  case Nil
  then show ?case by (simp add: abs_path_def)
next
  case (Cons s segs)
  then have ih: "split_on slash (abs_path segs) = [] # segs" by simp
  have "abs_path (s # segs) = slash # s @ abs_path segs" by (simp add: abs_path_def)
  show ?case
  proof (cases segs)
    case Nil
    then show ?thesis using Cons.prems by (simp add: abs_path_def split_on_free)
  next
    case (Cons t ts)
    then have "abs_path (s # segs) = slash # (s @ slash # (t @ abs_path ts))"
      by (simp add: abs_path_def)
    moreover have "split_on slash (t @ abs_path ts) = segs"
      using ih Cons by (simp add: abs_path_def)
    ultimately show ?thesis using Cons.prems by (simp add: split_on_free_append)
  qed
qed

lemma foldl_step_plain:
  "\<forall>s\<in>set segs. plain_segment s \<Longrightarrow> foldl (normalize_step a) acc segs = acc @ segs"
  by (induction segs arbitrary: acc) (auto simp: normalize_step_def plain_segment_def)

lemma join_with_abs: "segs \<noteq> [] \<Longrightarrow> slash # join_with [slash] segs = abs_path segs"
  by (induction "[slash]" segs rule: join_with.induct) (auto simp: abs_path_def)

lemma abs_path_nonempty: "segs \<noteq> [] \<Longrightarrow> abs_path segs \<noteq> []"
  by (cases segs) (auto simp: abs_path_def)

lemma abs_path_snoc: "abs_path (segs @ [n]) = abs_path segs @ slash # n"
  by (simp add: abs_path_def)

lemma abs_path_hd: "segs \<noteq> [] \<Longrightarrow> isAbsolute (abs_path segs)"
  by (cases segs) (auto simp: abs_path_def isAbsolute_def)

lemma abs_path_last: "segs \<noteq> [] \<Longrightarrow> \<forall>s\<in>set segs. plain_segment s \<Longrightarrow> last (abs_path segs) \<noteq> slash"
proof (induction segs rule: rev_induct)
  case Nil then show ?case by simp
next
  case (snoc n segs)
  then have "n \<noteq> []" "slash \<notin> set n" by (auto simp: plain_segment_def)
  then have "last n \<noteq> slash" using last_in_set[of n] by metis
  then show ?case using \<open>n \<noteq> []\<close> by (simp add: abs_path_snoc)
qed

lemma normalize_abs_path:
  assumes "segs \<noteq> []" "\<forall>s\<in>set segs. plain_segment s"
  shows "normalize (abs_path segs) = abs_path segs"
proof -
  have ns: "\<forall>s\<in>set segs. slash \<notin> set s" using assms by (auto simp: plain_segment_def)
  have "normalize_segments False (abs_path segs) = segs"
    using assms by (simp add: normalize_segments_def split_abs_path[OF ns] foldl_step_plain normalize_step_def)
  then have "normalizeString (abs_path segs) False = join_with ''/'' segs"
    by (simp add: normalizeString_def)
  moreover have "join_with ''/'' segs \<noteq> []"
    using assms by (induction "''/''" segs rule: join_with.induct) (auto simp: plain_segment_def)
  ultimately show ?thesis
    using assms abs_path_nonempty[OF assms(1)] abs_path_hd[OF assms(1)] abs_path_last[OF assms]
      join_with_abs[OF assms(1)]
    by (simp add: normalize_def Let_def slash_def)
qed

lemma path_join_abs:
  assumes "segs \<noteq> []" "\<forall>s\<in>set segs. plain_segment s" "plain_segment n"
  shows "path_join [abs_path segs, n] = abs_path (segs @ [n])"
proof -
  have "n \<noteq> []" using assms by (simp add: plain_segment_def)
  then have "path_join [abs_path segs, n] = normalize (abs_path segs @ ''/'' @ n)"
    using abs_path_nonempty[OF assms(1)] by (simp add: path_join_def)
  also have "abs_path segs @ ''/'' @ n = abs_path (segs @ [n])"
    by (simp add: abs_path_snoc slash_def)
  also have "normalize \<dots> = abs_path (segs @ [n])"
    using assms by (intro normalize_abs_path) auto
  finally show ?thesis .
qed

lemma dirname_append:
  assumes "d \<noteq> []" "last d \<noteq> slash" "n \<noteq> []" "slash \<notin> set n"
  shows "dirname (d @ slash # n) = d"
proof -
  obtain c cs where d: "d = c # cs" using assms(1) by (cases d) auto
  have rn: "rev n \<noteq> []" "hd (rev n) \<noteq> slash" using assms(3,4)
    by (auto simp: hd_rev) (metis last_in_set)
  have 1: "dropWhile (\<lambda>x. x = slash) (rev n @ slash # rev cs) = rev n @ slash # rev cs"
    using rn by (cases "rev n") auto
  have "\<And>x. x \<in> set (rev n) \<Longrightarrow> x \<noteq> slash" using assms(4) by auto
  then have 2: "dropWhile (\<lambda>x. x \<noteq> slash) (rev n @ slash # rev cs) = slash # rev cs"
    using dropWhile_append2[of "rev n" "\<lambda>x. x \<noteq> slash" "slash # rev cs"] by simp
  have "c = slash \<Longrightarrow> cs \<noteq> []" using assms(2) d by auto
  then show ?thesis using 1 2 d by (auto simp: dirname_def Let_def)
qed

lemma basename_append:
  assumes "n \<noteq> []" "slash \<notin> set n"
  shows "basename (d @ slash # n) = n"
proof -
  have rn: "rev n \<noteq> []" "hd (rev n) \<noteq> slash" using assms
    by (auto simp: hd_rev) (metis last_in_set)
  have 1: "dropWhile (\<lambda>x. x = slash) (rev n @ slash # rev d) = rev n @ slash # rev d"
    using rn by (cases "rev n") auto
  have "\<And>x. x \<in> set (rev n) \<Longrightarrow> x \<noteq> slash" using assms(2) by auto
  then have 2: "takeWhile (\<lambda>x. x \<noteq> slash) (rev n @ slash # rev d) = rev n"
    using takeWhile_append2[of "rev n" "\<lambda>x. x \<noteq> slash" "slash # rev d"] by simp
  show ?thesis using 1 2 by (simp add: basename_def)
qed

section \<open>The file-name pattern\<close>

lemma not_lower_dot: "\<not> is_lower CHR ''.''"
  by (simp add: is_lower_def)

lemma method_tail_iff:
  "method_tail t = Some m \<longleftrightarrow>
     (t = ''.'' @ m @ ''.ts'' \<and> m \<noteq> [] \<and> (\<forall>c\<in>set m. is_lower c))"
proof
  assume a: "method_tail t = Some m"
  then obtain cs where t: "t = CHR ''.'' # cs" and m: "takeWhile is_lower cs = m" "m \<noteq> []"
    and d: "dropWhile is_lower cs = ''.ts''"
    by (auto simp: method_tail_def split: list.splits if_splits)
  have "cs = m @ ''.ts''" using takeWhile_dropWhile_id[of is_lower cs] m d by simp
  moreover have "\<forall>c\<in>set m. is_lower c" using m(1) set_takeWhileD by fastforce
  ultimately show "t = ''.'' @ m @ ''.ts'' \<and> m \<noteq> [] \<and> (\<forall>c\<in>set m. is_lower c)"
    using t m by simp
next
  assume a: "t = ''.'' @ m @ ''.ts'' \<and> m \<noteq> [] \<and> (\<forall>c\<in>set m. is_lower c)"
  then have low: "\<And>x. x \<in> set m \<Longrightarrow> is_lower x" by simp
  have 1: "takeWhile is_lower (m @ ''.ts'') = m"
    using takeWhile_append2[of m is_lower "''.ts''"] low by (simp add: not_lower_dot)
  have 2: "dropWhile is_lower (m @ ''.ts'') = ''.ts''"
    using dropWhile_append2[of m is_lower "''.ts''"] low by (simp add: not_lower_dot)
  show "method_tail t = Some m" using a 1 2 by (simp add: method_tail_def)
qed

text \<open>The method is determined by the end of the name.\<close>

lemma method_of_tail:
  assumes "\<forall>c\<in>set m. is_lower c"
  shows "rev (takeWhile is_lower (drop 3 (rev (x @ ''.'' @ m @ ''.ts'')))) = m"
proof -
  have low: "\<And>c. c \<in> set (rev m) \<Longrightarrow> is_lower c" using assms by simp
  have "drop 3 (rev (x @ ''.'' @ m @ ''.ts'')) = rev m @ CHR ''.'' # rev x" by simp
  moreover have "takeWhile is_lower (rev m @ CHR ''.'' # rev x) = rev m"
    using takeWhile_append2[of "rev m" is_lower "CHR ''.'' # rev x"] low by (simp add: not_lower_dot)
  ultimately show ?thesis by simp
qed

lemma tail_unique:
  assumes "x @ ''.'' @ m @ ''.ts'' = y @ ''.'' @ r @ ''.ts''"
    and "\<forall>c\<in>set m. is_lower c" and "\<forall>c\<in>set r. is_lower c"
  shows "x = y \<and> m = r"
proof -
  have "m = r" using method_of_tail[OF assms(2), of x] method_of_tail[OF assms(3), of y] assms(1)
    by metis
  then show ?thesis using assms(1) by simp
qed

lemma lazy_dots_method_iff:
  "lazy_dots method_tail acc s = Some (n, m) \<longleftrightarrow>
     (\<exists>x. n = acc @ x \<and> (\<forall>c\<in>set x. \<not> is_line_terminator c) \<and>
          s = x @ ''.'' @ m @ ''.ts'' \<and> m \<noteq> [] \<and> (\<forall>c\<in>set m. is_lower c))"
proof (induction s arbitrary: acc)
  case Nil
  show ?case by (auto simp: method_tail_def)
next
  case (Cons c cs)
  show ?case
  proof (cases "method_tail (c # cs)")
    case (Some r)
    then have r: "c # cs = ''.'' @ r @ ''.ts''" "r \<noteq> []" "\<forall>c\<in>set r. is_lower c"
      using method_tail_iff[of "c # cs" r] by auto
    have "lazy_dots method_tail acc (c # cs) = Some (acc, r)" using Some by simp
    moreover have "(\<exists>x. n = acc @ x \<and> (\<forall>c\<in>set x. \<not> is_line_terminator c) \<and>
          c # cs = x @ ''.'' @ m @ ''.ts'' \<and> m \<noteq> [] \<and> (\<forall>c\<in>set m. is_lower c))
        \<longleftrightarrow> (n = acc \<and> m = r)"
    proof
      assume "\<exists>x. n = acc @ x \<and> (\<forall>c\<in>set x. \<not> is_line_terminator c) \<and>
          c # cs = x @ ''.'' @ m @ ''.ts'' \<and> m \<noteq> [] \<and> (\<forall>c\<in>set m. is_lower c)"
      then obtain x where x: "n = acc @ x" "c # cs = x @ ''.'' @ m @ ''.ts''" "\<forall>c\<in>set m. is_lower c"
        by blast
      have "x @ ''.'' @ m @ ''.ts'' = [] @ ''.'' @ r @ ''.ts''" using x(2) r(1) by simp
      then have "x = [] \<and> m = r" using tail_unique[of x m "[]" r] x(3) r(3) by blast
      then show "n = acc \<and> m = r" using x(1) by simp
    next
      assume "n = acc \<and> m = r"
      then show "\<exists>x. n = acc @ x \<and> (\<forall>c\<in>set x. \<not> is_line_terminator c) \<and>
          c # cs = x @ ''.'' @ m @ ''.ts'' \<and> m \<noteq> [] \<and> (\<forall>c\<in>set m. is_lower c)"
        using r by (intro exI[of _ "[]"]) simp
    qed
    ultimately show ?thesis by auto
  next
    case None
    have nohead: "\<not> (c # cs = ''.'' @ m @ ''.ts'' \<and> m \<noteq> [] \<and> (\<forall>c\<in>set m. is_lower c))"
      using None method_tail_iff[of "c # cs" m] by simp
    show ?thesis
    proof (cases "is_line_terminator c")
      case True
      have "lazy_dots method_tail acc (c # cs) = None" using None True by simp
      moreover have "\<not> (\<exists>x. n = acc @ x \<and> (\<forall>c\<in>set x. \<not> is_line_terminator c) \<and>
          c # cs = x @ ''.'' @ m @ ''.ts'' \<and> m \<noteq> [] \<and> (\<forall>c\<in>set m. is_lower c))"
      proof
        assume "\<exists>x. n = acc @ x \<and> (\<forall>c\<in>set x. \<not> is_line_terminator c) \<and>
          c # cs = x @ ''.'' @ m @ ''.ts'' \<and> m \<noteq> [] \<and> (\<forall>c\<in>set m. is_lower c)"
        then obtain x where x: "\<forall>c\<in>set x. \<not> is_line_terminator c"
          "c # cs = x @ ''.'' @ m @ ''.ts''" "m \<noteq> []" "\<forall>c\<in>set m. is_lower c" by blast
        show False
        proof (cases x)
          case Nil then show False using x nohead by simp
        next
          case (Cons y ys) then show False using x True by auto
        qed
      qed
      ultimately show ?thesis by simp
    next
      case False
      have step: "lazy_dots method_tail acc (c # cs) = lazy_dots method_tail (acc @ [c]) cs"
        using None False by simp
      have "(\<exists>x. n = acc @ x \<and> (\<forall>c\<in>set x. \<not> is_line_terminator c) \<and>
          c # cs = x @ ''.'' @ m @ ''.ts'' \<and> m \<noteq> [] \<and> (\<forall>c\<in>set m. is_lower c))
        \<longleftrightarrow> (\<exists>x. n = (acc @ [c]) @ x \<and> (\<forall>c\<in>set x. \<not> is_line_terminator c) \<and>
          cs = x @ ''.'' @ m @ ''.ts'' \<and> m \<noteq> [] \<and> (\<forall>c\<in>set m. is_lower c))"
      proof
        assume "\<exists>x. n = acc @ x \<and> (\<forall>c\<in>set x. \<not> is_line_terminator c) \<and>
          c # cs = x @ ''.'' @ m @ ''.ts'' \<and> m \<noteq> [] \<and> (\<forall>c\<in>set m. is_lower c)"
        then obtain x where x: "n = acc @ x" "\<forall>c\<in>set x. \<not> is_line_terminator c"
          "c # cs = x @ ''.'' @ m @ ''.ts''" "m \<noteq> []" "\<forall>c\<in>set m. is_lower c" by blast
        then obtain ys where ys: "x = c # ys" using nohead by (cases x) auto
        show "\<exists>x. n = (acc @ [c]) @ x \<and> (\<forall>c\<in>set x. \<not> is_line_terminator c) \<and>
          cs = x @ ''.'' @ m @ ''.ts'' \<and> m \<noteq> [] \<and> (\<forall>c\<in>set m. is_lower c)"
          using x ys by (intro exI[of _ ys]) simp
      next
        assume "\<exists>x. n = (acc @ [c]) @ x \<and> (\<forall>c\<in>set x. \<not> is_line_terminator c) \<and>
          cs = x @ ''.'' @ m @ ''.ts'' \<and> m \<noteq> [] \<and> (\<forall>c\<in>set m. is_lower c)"
        then obtain x where x: "n = (acc @ [c]) @ x" "\<forall>c\<in>set x. \<not> is_line_terminator c"
          "cs = x @ ''.'' @ m @ ''.ts''" "m \<noteq> []" "\<forall>c\<in>set m. is_lower c" by blast
        show "\<exists>x. n = acc @ x \<and> (\<forall>c\<in>set x. \<not> is_line_terminator c) \<and>
          c # cs = x @ ''.'' @ m @ ''.ts'' \<and> m \<noteq> [] \<and> (\<forall>c\<in>set m. is_lower c)"
          using x False by (intro exI[of _ "c # x"]) simp
      qed
      then show ?thesis using step Cons.IH[of "acc @ [c]"] by simp
    qed
  qed
qed

text \<open>
  Claim C4, as the code has it. The method of a route file is any non-empty word of
  lowercase letters, not a member of a fixed set: \<open>route_file_match\<close> returns the pair
  \<open>(name, method)\<close> exactly when the file name is \<open>name.method.ts\<close> with a non-empty
  name free of line terminators and a non-empty method made of the letters a to z; it
  returns nothing for every other file name.
\<close>

theorem route_file_match_iff:
  "route_file_match s = Some (n, m) \<longleftrightarrow>
     (s = n @ ''.'' @ m @ ''.ts'' \<and> n \<noteq> [] \<and> (\<forall>c\<in>set n. \<not> is_line_terminator c) \<and>
      m \<noteq> [] \<and> (\<forall>c\<in>set m. is_lower c))"
proof (cases s)
  case Nil
  then show ?thesis by (simp add: route_file_match_def)
next
  case (Cons c cs)
  show ?thesis
  proof (cases "is_line_terminator c")
    case True
    have "route_file_match s = None" using Cons True by (simp add: route_file_match_def)
    moreover have "\<not> (s = n @ ''.'' @ m @ ''.ts'' \<and> n \<noteq> [] \<and> (\<forall>c\<in>set n. \<not> is_line_terminator c))"
      using Cons True by (cases n) auto
    ultimately show ?thesis by auto
  next
    case False
    have "route_file_match s = lazy_dots method_tail [c] cs"
      using Cons False by (simp add: route_file_match_def)
    moreover have "(\<exists>x. n = [c] @ x \<and> (\<forall>c\<in>set x. \<not> is_line_terminator c) \<and>
          cs = x @ ''.'' @ m @ ''.ts'' \<and> m \<noteq> [] \<and> (\<forall>c\<in>set m. is_lower c))
       \<longleftrightarrow> (s = n @ ''.'' @ m @ ''.ts'' \<and> n \<noteq> [] \<and> (\<forall>c\<in>set n. \<not> is_line_terminator c) \<and>
      m \<noteq> [] \<and> (\<forall>c\<in>set m. is_lower c))"
      using Cons False by (cases n) auto
    ultimately show ?thesis using lazy_dots_method_iff[of "[c]" cs n m] by simp
  qed
qed

text \<open>The pattern at \<open>list.get.ts\<close>: the conditions hold and the pair is returned.\<close>

theorem route_file_match_iff_witness:
  "''list.get.ts'' = ''list'' @ ''.'' @ ''get'' @ ''.ts'' \<and>
   list_all (\<lambda>c. \<not> is_line_terminator c) ''list'' \<and> list_all is_lower ''get'' \<and>
   route_file_match ''list.get.ts'' = Some (''list'', ''get'')"
  using route_file_match_iff [of "''list.get.ts''" "''list''" "''get''"]
  by (simp add: is_lower_def is_line_terminator_def)

text \<open>
  Claim C4 as stated fails: \<open>bar\<close> is a lowercase word outside every set of HTTP
  methods, and \<open>list.bar.ts\<close> parses to the pair \<open>(list, bar)\<close>, not to nothing.
\<close>

theorem route_file_match_unrecognized_method:
  "route_file_match ''list.bar.ts'' = Some (''list'', ''bar'')"
  by (simp add: route_file_match_def method_tail_def is_lower_def is_line_terminator_def)

section \<open>The effective configuration\<close>

text \<open>
  Claim C7, as the code has it. Without a configuration from the user the builder
  works with the base path \<open>/api\<close>, the port 3000, \<open>cacheable\<close> set, and the source
  directory \<open>./src\<close> resolved against the working directory.
\<close>

theorem effective_config_default:
  "effective_config e None =
     \<lparr>sourceDirectory = Some (path_resolve (cwd e) [cwd e, ''./src'']),
      basePath = Some ''/api'', cacheable = Some True, port = Some 3000\<rparr>"
  by (simp add: effective_config_def spread_config_def spread_option_def defaultConfig_def
      isAbsolute_def slash_def)

text \<open>
  Claim C7 as stated fails: with the working directory \<open>/app\<close> and no configuration
  the base path is not \<open>/\<close>, and the source directory is \<open>/app/src\<close>, not \<open>./src\<close>.
\<close>

theorem effective_config_basePath_not_root:
  "basePath (effective_config (demo_env [] []) None) \<noteq> Some ''/'' \<and>
   basePath (effective_config (demo_env [] []) None) = Some ''/api'' \<and>
   sourceDirectory (effective_config (demo_env [] []) None) = Some ''/app/src''"
  by (simp add: effective_config_def spread_config_def spread_option_def defaultConfig_def
      isAbsolute_def slash_def demo_env_def path_resolve_def normalizeString_def
      normalize_segments_def normalize_step_def)

section \<open>Removal of a file\<close>

text \<open>
  Claim C10. When the path of an unlink event is not a key of the route table,
  \<open>handleFileRemoval\<close> returns the builder as it was: the table, the server instance and
  the record of \<open>stop\<close> and \<open>listen\<close> calls are unchanged. So the server is stopped or
  started by this handler only when the path had a route.
\<close>

theorem handleFileRemoval_unknown_path:
  assumes "filePath \<notin> fst ` set (routes b)"
  shows "handleFileRemoval e b filePath = b"
proof -
  have "map_of (routes b) filePath = None" using assms by (simp add: map_of_eq_None_iff)
  then show ?thesis by (simp add: handleFileRemoval_def has_route_def)
qed

text \<open>
  An unlink of \<open>/app/src/gone.get.ts\<close> when the table holds \<open>/app/src/list.get.ts\<close> only.
\<close>

theorem handleFileRemoval_unknown_path_witness:
  "''/app/src/gone.get.ts'' \<notin>
     fst ` set (routes (demo_builder
        [(''/app/src/list.get.ts'', demo_route ''/list'' ''/app/src/list.get.ts'')])) \<and>
   handleFileRemoval (demo_env [] [])
     (demo_builder [(''/app/src/list.get.ts'', demo_route ''/list'' ''/app/src/list.get.ts'')])
     ''/app/src/gone.get.ts'' =
   demo_builder [(''/app/src/list.get.ts'', demo_route ''/list'' ''/app/src/list.get.ts'')]"
proof -
  have h: "''/app/src/gone.get.ts'' \<notin>
     fst ` set (routes (demo_builder
        [(''/app/src/list.get.ts'', demo_route ''/list'' ''/app/src/list.get.ts'')]))"
    by (simp add: demo_builder_def)
  show ?thesis using h handleFileRemoval_unknown_path [OF h] by simp
qed

section \<open>Change of a handler file\<close>

lemma apply_middlewares_uses:
  "snd (apply_middlewares e mc (a, ops) mws) =
     (a\<lparr>registrations := registrations a @ map Use (used_middlewares e mc mws)\<rparr>, ops)"
proof (induction mws arbitrary: mc a)
  case Nil
  then show ?case by simp
next
  case (Cons p rest)
  show ?case
  proof (cases "mc p")
    case (Some mw)
    have ih: "snd (apply_middlewares e mc (a\<lparr>registrations := registrations a @ [Use mw]\<rparr>, ops) rest) =
        ((a\<lparr>registrations := registrations a @ [Use mw]\<rparr>)
           \<lparr>registrations := registrations (a\<lparr>registrations := registrations a @ [Use mw]\<rparr>) @
              map Use (used_middlewares e mc rest)\<rparr>, ops)"
      by (rule Cons)
    show ?thesis using Some by (simp add: use_middleware_def ih)
  next
    case None
    show ?thesis
    proof (cases "load_middleware e p")
      case n: None
      then show ?thesis using None Cons[of mc a] by simp
    next
      case (Some mw)
      have ih: "snd (apply_middlewares e (mc(p \<mapsto> mw))
            (a\<lparr>registrations := registrations a @ [Use mw]\<rparr>, ops) rest) =
        ((a\<lparr>registrations := registrations a @ [Use mw]\<rparr>)
           \<lparr>registrations := registrations (a\<lparr>registrations := registrations a @ [Use mw]\<rparr>) @
              map Use (used_middlewares e (mc(p \<mapsto> mw)) rest)\<rparr>, ops)"
        by (rule Cons)
      show ?thesis using None Some by (simp add: use_middleware_def ih)
    qed
  qed
qed

lemma applyRouteToApp_route_method:
  assumes "instance_function e (toLowerCase (httpMethod r)) = None \<or>
           instance_function e (toLowerCase (httpMethod r)) =
             Some (register_route (toLowerCase (httpMethod r)))"
  shows "snd (applyRouteToApp e mc r (a, ops)) =
     (a\<lparr>registrations := registrations a @
          (case load_handler e (handlerPath r) of
             None \<Rightarrow> []
           | Some h \<Rightarrow>
               map Use (used_middlewares e mc (middlewares r)) @
               (case instance_function e (toLowerCase (httpMethod r)) of
                  None \<Rightarrow> []
                | Some f \<Rightarrow> [Route (toLowerCase (httpMethod r)) (path r) h]))\<rparr>, ops)"
proof (cases "load_handler e (handlerPath r)")
  case None
  then show ?thesis by (simp add: applyRouteToApp_def)
next
  case (Some h)
  obtain mc1 t1 where am: "apply_middlewares e mc (a, ops) (middlewares r) = (mc1, t1)"
    by (cases "apply_middlewares e mc (a, ops) (middlewares r)")
  have t1: "t1 = (a\<lparr>registrations := registrations a @
                 map Use (used_middlewares e mc (middlewares r))\<rparr>, ops)"
    using apply_middlewares_uses[of e mc a ops "middlewares r"] am by simp
  from assms show ?thesis
  proof
    assume n: "instance_function e (toLowerCase (httpMethod r)) = None"
    show ?thesis using Some am t1 n by (simp add: applyRouteToApp_def)
  next
    assume f: "instance_function e (toLowerCase (httpMethod r)) =
             Some (register_route (toLowerCase (httpMethod r)))"
    show ?thesis using Some am t1 f by (simp add: applyRouteToApp_def register_route_def)
  qed
qed

text \<open>
  Claim C5, as the code has it. An add or change event on a file that is neither
  \<open>middleware.ts\<close> nor \<open>expectations.ts\<close> and that parses to a route sets that one
  entry of the table, and there is no rebuild. Let the method of the route be a route
  method of the instance, or no function of the instance at all. Then the live instance
  is neither stopped nor started, nothing registered before is dropped, and what is
  appended to its registrations is exactly this: nothing when the handler fails to
  load; otherwise the \<open>use\<close> of every middleware of the chain that is cached or loads,
  in the order of the chain, and then, when the method is a function of the instance,
  the route with its method, path and loaded handler.
\<close>

theorem handleFileChange_applies_route:
  assumes "basename filePath \<noteq> ''middleware.ts''"
    and "basename filePath \<noteq> ''expectations.ts''"
    and "parseRouteFile e (source_dir b) filePath [] None None = Some (Some route)"
    and "instance_function e (toLowerCase (httpMethod route)) = None \<or>
         instance_function e (toLowerCase (httpMethod route)) =
           Some (register_route (toLowerCase (httpMethod route)))"
  shows "\<exists>b1.
           handleFileChange e b filePath = Some (b1, None) \<and>
           routes b1 = AList.update filePath route (routes b) \<and>
           server_ops b1 = server_ops b \<and>
           server (app b1) = server (app b) \<and>
           registrations (app b1) =
             registrations (app b) @
             (case load_handler e (handlerPath route) of
                None \<Rightarrow> []
              | Some h \<Rightarrow>
                  map Use (used_middlewares e (middlewareCache b) (middlewares route)) @
                  (case instance_function e (toLowerCase (httpMethod route)) of
                     None \<Rightarrow> []
                   | Some f \<Rightarrow> [Route (toLowerCase (httpMethod route)) (path route) h]))"
proof -
  obtain mc a ops where ar:
    "applyRouteToApp e (middlewareCache b) route (app b, server_ops b) = (mc, (a, ops))"
    by (cases "applyRouteToApp e (middlewareCache b) route (app b, server_ops b)") auto
  have "(a, ops) =
     ((app b)\<lparr>registrations := registrations (app b) @
          (case load_handler e (handlerPath route) of
             None \<Rightarrow> []
           | Some h \<Rightarrow>
               map Use (used_middlewares e (middlewareCache b) (middlewares route)) @
               (case instance_function e (toLowerCase (httpMethod route)) of
                  None \<Rightarrow> []
                | Some f \<Rightarrow> [Route (toLowerCase (httpMethod route)) (path route) h]))\<rparr>,
      server_ops b)"
    using applyRouteToApp_route_method[OF assms(4), of "middlewareCache b" "app b" "server_ops b"] ar
    by simp
  then have a: "a = (app b)\<lparr>registrations := registrations (app b) @
          (case load_handler e (handlerPath route) of
             None \<Rightarrow> []
           | Some h \<Rightarrow>
               map Use (used_middlewares e (middlewareCache b) (middlewares route)) @
               (case instance_function e (toLowerCase (httpMethod route)) of
                  None \<Rightarrow> []
                | Some f \<Rightarrow> [Route (toLowerCase (httpMethod route)) (path route) h]))\<rparr>"
    and ops: "ops = server_ops b" by simp_all
  have "handleFileChange e b filePath =
      Some (b\<lparr>routes := AList.update filePath route (routes b),
              middlewareCache := mc, app := a, server_ops := ops\<rparr>, None)"
    using assms(1,2,3) ar by (simp add: handleFileChange_def)
  then show ?thesis using a ops by simp
qed

text \<open>
  A change of \<open>/app/src/users/list.get.ts\<close> on a builder with an empty table, with a
  middleware declaration in \<open>/app/src\<close>: the middleware is used and the route registered
  on the instance that is listening.
\<close>

theorem handleFileChange_applies_route_witness:
  "basename ''/app/src/users/list.get.ts'' \<noteq> ''middleware.ts'' \<and>
   basename ''/app/src/users/list.get.ts'' \<noteq> ''expectations.ts'' \<and>
   parseRouteFile
     (demo_env [''/app/src'', ''/app/src/middleware.ts'', ''/app/src/users'',
                ''/app/src/users/list.get.ts''] [])
     (source_dir (demo_builder [])) ''/app/src/users/list.get.ts'' [] None None =
     Some (Some ((demo_route ''/users/list'' ''/app/src/users/list.get.ts'')
                   \<lparr>middlewares := [''/app/src/middleware.ts'']\<rparr>)) \<and>
   (\<exists>b1.
      handleFileChange
        (demo_env [''/app/src'', ''/app/src/middleware.ts'', ''/app/src/users'',
                   ''/app/src/users/list.get.ts''] [])
        (demo_builder []) ''/app/src/users/list.get.ts'' = Some (b1, None) \<and>
      map fst (routes b1) = [''/app/src/users/list.get.ts''] \<and>
      server_ops b1 = [Listen 3000] \<and>
      server (app b1) = True \<and>
      registrations (app b1) =
        [Group ''/api'' [], Use ''/app/src/middleware.ts'',
         Route ''get'' ''/users/list'' ''/app/src/users/list.get.ts''])"
proof -
  let ?e = "demo_env [''/app/src'', ''/app/src/middleware.ts'', ''/app/src/users'',
                ''/app/src/users/list.get.ts''] []"
  let ?r = "(demo_route ''/users/list'' ''/app/src/users/list.get.ts'')
                   \<lparr>middlewares := [''/app/src/middleware.ts'']\<rparr>"
  have h1: "basename ''/app/src/users/list.get.ts'' \<noteq> ''middleware.ts''"
    by code_simp
  have h2: "basename ''/app/src/users/list.get.ts'' \<noteq> ''expectations.ts''"
    by code_simp
  have h3: "parseRouteFile ?e (source_dir (demo_builder [])) ''/app/src/users/list.get.ts''
      [] None None = Some (Some ?r)"
    by code_simp
  have lc: "toLowerCase (httpMethod ?r) = ''get''"
    by code_simp
  have h4: "instance_function ?e (toLowerCase (httpMethod ?r)) = None \<or>
      instance_function ?e (toLowerCase (httpMethod ?r)) =
        Some (register_route (toLowerCase (httpMethod ?r)))"
    unfolding lc by (simp add: demo_env_def)
  from handleFileChange_applies_route [OF h1 h2 h3 h4]
  obtain b1 where b1:
    "handleFileChange ?e (demo_builder []) ''/app/src/users/list.get.ts'' = Some (b1, None) \<and>
     routes b1 = AList.update ''/app/src/users/list.get.ts'' ?r (routes (demo_builder [])) \<and>
     server_ops b1 = server_ops (demo_builder []) \<and>
     server (app b1) = server (app (demo_builder [])) \<and>
     registrations (app b1) =
       registrations (app (demo_builder [])) @
       (case load_handler ?e (handlerPath ?r) of
          None \<Rightarrow> []
        | Some h \<Rightarrow>
            map Use (used_middlewares ?e (middlewareCache (demo_builder [])) (middlewares ?r)) @
            (case instance_function ?e (toLowerCase (httpMethod ?r)) of
               None \<Rightarrow> []
             | Some f \<Rightarrow> [Route (toLowerCase (httpMethod ?r)) (path ?r) h]))" ..
  have r0: "handleFileChange ?e (demo_builder []) ''/app/src/users/list.get.ts'' = Some (b1, None)"
    using b1 by (rule conjunct1)
  have r1: "map fst (routes b1) = [''/app/src/users/list.get.ts'']"
    using b1[THEN conjunct2, THEN conjunct1] by (simp add: demo_builder_def)
  have r2: "server_ops b1 = [Listen 3000]"
    using b1[THEN conjunct2, THEN conjunct2, THEN conjunct1] by (simp add: demo_builder_def)
  have r3: "server (app b1) = True"
    using b1[THEN conjunct2, THEN conjunct2, THEN conjunct2, THEN conjunct1]
    by (simp add: demo_builder_def)
  have u: "used_middlewares ?e (middlewareCache (demo_builder [])) (middlewares ?r) =
      [''/app/src/middleware.ts'']"
    by (simp add: demo_builder_def demo_env_def demo_route_def)
  have f: "instance_function ?e ''get'' = Some (register_route ''get'')"
    by (simp add: demo_env_def)
  have l: "load_handler ?e (handlerPath ?r) = Some ''/app/src/users/list.get.ts''"
    by (simp add: demo_env_def demo_route_def)
  have pr: "path ?r = ''/users/list''" by (simp add: demo_route_def)
  have rg: "registrations (app (demo_builder [])) = [Group ''/api'' []]"
    by (simp add: demo_builder_def)
  have r4: "registrations (app b1) =
        [Group ''/api'' [], Use ''/app/src/middleware.ts'',
         Route ''get'' ''/users/list'' ''/app/src/users/list.get.ts'']"
    using b1[THEN conjunct2, THEN conjunct2, THEN conjunct2, THEN conjunct2]
    unfolding lc u f l pr rg by simp
  have ex: "\<exists>b1.
      handleFileChange ?e (demo_builder []) ''/app/src/users/list.get.ts'' = Some (b1, None) \<and>
      map fst (routes b1) = [''/app/src/users/list.get.ts''] \<and>
      server_ops b1 = [Listen 3000] \<and>
      server (app b1) = True \<and>
      registrations (app b1) =
        [Group ''/api'' [], Use ''/app/src/middleware.ts'',
         Route ''get'' ''/users/list'' ''/app/src/users/list.get.ts'']"
    by (intro exI[of _ b1] conjI) (rule r0 r1 r2 r3 r4)+
  show ?thesis
    by (intro conjI) (rule h1 h2 h3 ex)+
qed

text \<open>
  Claim C5 as stated fails in two ways. When the module of the handler fails to load,
  the entry of the table is set and nothing is applied to the server. And the method
  of a file may name any function of the instance: a change of \<open>/app/src/x.stop.ts\<close>
  calls \<open>stop\<close> on the live instance, which no longer listens.
\<close>

theorem handleFileChange_not_applied_or_stopped:
  "map_option (\<lambda>r. (map fst (routes (fst r)), registrations (app (fst r))))
     (handleFileChange
        ((demo_env [''/app/src'', ''/app/src/users'', ''/app/src/users/list.get.ts''] [])
           \<lparr>load_handler := (\<lambda>p. None)\<rparr>)
        (demo_builder []) ''/app/src/users/list.get.ts'') =
     Some ([''/app/src/users/list.get.ts''], [Group ''/api'' []]) \<and>
   map_option (\<lambda>r. (server (app (fst r)), server_ops (fst r)))
     (handleFileChange (demo_env [''/app/src'', ''/app/src/x.stop.ts''] [])
        (demo_builder []) ''/app/src/x.stop.ts'') =
     Some (False, [Listen 3000, Stop])"
  by code_simp

section \<open>Removal of a directory\<close>

text \<open>\<open>startsWith\<close> is the prefix test on characters.\<close>

lemma startsWith_iff: "startsWith s p \<longleftrightarrow> (\<exists>t. s = p @ t)"
  by (induction s p rule: startsWith.induct) auto

text \<open>
  Claim C2, at the failing input. The table holds a route under \<open>/app/src/a/b\<close> and a
  route under its sibling \<open>/app/src/a/bc\<close>; the removal of the directory \<open>/app/src/a/b\<close>
  deletes both, because the keys are compared as strings and \<open>/app/src/a/bc/x.get.ts\<close>
  starts with \<open>/app/src/a/b\<close>.
\<close>

theorem handleDirectoryRemoval_sibling_prefix:
  "map fst (routes (handleDirectoryRemoval (demo_env [] [])
      (demo_builder
         [(''/app/src/a/b/y.get.ts'', demo_route ''a/b/y'' ''/app/src/a/b/y.get.ts''),
          (''/app/src/a/bc/x.get.ts'', demo_route ''a/bc/x'' ''/app/src/a/bc/x.get.ts'')])
      ''/app/src/a/b'')) = []"
  by (simp add: handleDirectoryRemoval_def rebuildApp_def rebuild_begin_def
      rebuild_finish_def stop_server_def delete_routes_under_def demo_builder_def
      split: prod.splits)

section \<open>Errors during a scan\<close>

lemma no_error_then_routes: "no_error r \<Longrightarrow> no_error (then_routes a r)"
  by (auto simp: no_error_def then_routes_def split: option.splits sum.splits prod.splits)

lemma scan_no_error:
  "(case l of None \<Rightarrow> True | Some es \<Rightarrow> list_all readable es \<longrightarrow>
       no_error (scan_listing e src c d b (Some es)))"
  "list_all readable es \<longrightarrow> no_error (scan_entries e src c d b lm ex es)"
proof (induction e src c d b l and e src c d b lm ex es rule: scan_listing_scan_entries.induct)
  case (1 e src cache dirPath base)
  then show ?case by simp
next
  case (2 e src cache dirPath base entries)
  then show ?case by (simp add: Let_def no_error_def)
next
  case (3 e src cache dirPath base lm ex)
  then show ?case by (simp add: no_error_def)
next
  case (4 e src cache dirPath base lm ex n es)
  then show ?case
    by (auto simp: no_error_then_routes split: option.splits) (simp add: no_error_def)
next
  case (5 e src cache dirPath base lm ex n children es)
  then show ?case
    by (auto simp: no_error_then_routes split: option.splits sum.splits prod.splits)
next
  case (6 e src cache dirPath base lm ex n es)
  then show ?case by simp
next
  case (7 e src cache dirPath base lm ex n es)
  then show ?case by (cases "startsWith n ''_''") simp_all
qed


lemma scan_shape_simps:
  "scan_shape None = None"
  "scan_shape (Some (c, Inl err)) = Some (Inl err)"
  "scan_shape (Some (c, Inr rs)) = Some (Inr (map route_core rs))"
  by (simp_all add: scan_shape_def)

lemma then_routes_simps:
  "then_routes a None = None"
  "then_routes a (Some (c, Inl err)) = Some (c, Inl err)"
  "then_routes a (Some (c, Inr rs)) = Some (c, Inr (a @ rs))"
  by (simp_all add: then_routes_def)

lemma scan_result_cases:
  obtains (Diverges) "r = None" | (Fails) c err where "r = Some (c, Inl err)"
    | (Returns) c rs where "r = Some (c, Inr rs)"
proof (cases r)
  case None
  then show ?thesis using Diverges by simp
next
  case (Some a)
  obtain c x where "a = (c, x)" by (cases a)
  then show ?thesis using Some Fails Returns by (cases x) simp_all
qed

lemma shape_None: "scan_shape r = None \<longleftrightarrow> r = None"
  by (cases r rule: scan_result_cases) (simp_all add: scan_shape_simps)

lemma shape_Inl: "scan_shape r = Some (Inl err) \<longleftrightarrow> (\<exists>c. r = Some (c, Inl err))"
  by (cases r rule: scan_result_cases) (simp_all add: scan_shape_simps)

lemma shape_Inr:
  "scan_shape r = Some (Inr cs) \<longleftrightarrow> (\<exists>c rs. r = Some (c, Inr rs) \<and> map route_core rs = cs)"
  by (cases r rule: scan_result_cases) (simp_all add: scan_shape_simps)

lemma shape_then_routes:
  assumes "scan_shape r = scan_shape r'" "map route_core a = map route_core a'"
  shows "scan_shape (then_routes a r) = scan_shape (then_routes a' r')"
proof (cases r rule: scan_result_cases)
  case Diverges
  then have "r' = None" using assms(1) shape_None[of r'] by (simp add: scan_shape_simps)
  then show ?thesis using Diverges by (simp add: then_routes_simps)
next
  case (Fails c err)
  then obtain c' where "r' = Some (c', Inl err)"
    using assms(1) shape_Inl[of r' err] by (auto simp: scan_shape_simps)
  then show ?thesis using Fails by (simp add: then_routes_simps scan_shape_simps)
next
  case (Returns c rs)
  then obtain c' rs' where "r' = Some (c', Inr rs')" "map route_core rs' = map route_core rs"
    using assms(1) shape_Inr[of r' "map route_core rs"] by (auto simp: scan_shape_simps)
  then show ?thesis using Returns assms(2) by (simp add: then_routes_simps scan_shape_simps)
qed

lemma parse_core:
  "map_option (map_option route_core) (parseRouteFile (e\<lparr>load_expectations := f\<rparr>) src fp b lm ex2) =
   map_option (map_option route_core) (parseRouteFile e src fp b lm ex)"
proof (cases "route_file_match (basename fp)")
  case None
  then show ?thesis by (simp add: parseRouteFile_def)
next
  case (Some nm)
  obtain fileName m where nm: "nm = (fileName, m)" by (cases nm)
  show ?thesis
  proof (cases "collect_parent_middlewares (existsSync e) src (dirname fp)
                  (case lm of Some mw \<Rightarrow> [mw] | None \<Rightarrow> [])")
    case None
    then show ?thesis using Some nm by (simp add: parseRouteFile_def Let_def)
  next
    case mws: (Some mws)
    then show ?thesis using Some nm by (simp add: parseRouteFile_def Let_def route_core_def)
  qed
qed

lemma shape_dir_step:
  assumes sub: "scan_shape R' = scan_shape R"
    and rest: "\<And>x x' rs. R = Some (x, Inr rs) \<Longrightarrow> scan_shape (K' x') = scan_shape (K x)"
  shows "scan_shape (case R' of None \<Rightarrow> None | Some (c, Inl err) \<Rightarrow> Some (c, Inl err)
                     | Some (c, Inr subRoutes) \<Rightarrow> then_routes subRoutes (K' c)) =
         scan_shape (case R of None \<Rightarrow> None | Some (c, Inl err) \<Rightarrow> Some (c, Inl err)
                     | Some (c, Inr subRoutes) \<Rightarrow> then_routes subRoutes (K c))"
proof (cases R)
  case None
  then have "R' = None" using sub shape_None[of R'] by (simp add: scan_shape_simps)
  then show ?thesis using None by simp
next
  case (Some a)
  obtain x y where a: "a = (x, y)" by (cases a)
  show ?thesis
  proof (cases y)
    case (Inl err)
    then have "scan_shape R = Some (Inl err)" using Some a by (simp add: scan_shape_def)
    then obtain x' where "R' = Some (x', Inl err)" using sub shape_Inl[of R' err] by auto
    then show ?thesis using Some a Inl by (simp add: scan_shape_def)
  next
    case (Inr rs)
    then have "scan_shape R = Some (Inr (map route_core rs))" using Some a by (simp add: scan_shape_def)
    then obtain x' rs' where r': "R' = Some (x', Inr rs')" "map route_core rs' = map route_core rs"
      using sub shape_Inr[of R' "map route_core rs"] by auto
    have k: "scan_shape (K' x') = scan_shape (K x)" using rest[of x rs x'] Some a Inr by simp
    show ?thesis
      using Some a Inr r'(1) shape_then_routes[OF k r'(2)] by simp
  qed
qed

lemma scan_shape_loader:
  "\<forall>c2. scan_shape (scan_listing (e\<lparr>load_expectations := f\<rparr>) src c2 d b l) =
        scan_shape (scan_listing e src c d b l)"
  "\<forall>c2 ex2. scan_shape (scan_entries (e\<lparr>load_expectations := f\<rparr>) src c2 d b lm ex2 es) =
        scan_shape (scan_entries e src c d b lm ex es)"
proof (induction e src c d b l and e src c d b lm ex es rule: scan_listing_scan_entries.induct)
  case (1 e src cache dirPath base)
  then show ?case by (simp add: scan_shape_def)
next
  case (2 e src cache dirPath base entries)
  then show ?case by (simp add: scan_shape_def Let_def)
next
  case (3 e src cache dirPath base lm ex)
  then show ?case by (simp add: scan_shape_def)
next
  case (4 e src cache dirPath base lm ex n es)
  show ?case
  proof (intro allI)
    fix c2 ex2
    let ?e' = "e\<lparr>load_expectations := f\<rparr>"
    let ?fp = "path_join [dirPath, n]"
    consider (skip) "startsWith n ''_'' \<or> \<not> endsWith n ''.ts'' \<or> n = ''middleware.ts'' \<or> n = ''expectations.ts''"
      | (parse) "\<not> startsWith n ''_''" "endsWith n ''.ts''" "\<not> (n = ''middleware.ts'' \<or> n = ''expectations.ts'')"
      by blast
    then show "scan_shape (scan_entries ?e' src c2 dirPath base lm ex2 (FileEnt n # es)) =
               scan_shape (scan_entries e src cache dirPath base lm ex (FileEnt n # es))"
    proof cases
      case skip
      then show ?thesis using 4(1,2,5) by auto
    next
      case parse
      note pc = parse_core[where e=e and f=f and src=src and fp="?fp" and b=base and lm=lm and ?ex2.0=ex2 and ex=ex]
      show ?thesis
      proof (cases "parseRouteFile e src ?fp base lm ex")
        case None
        then have "parseRouteFile ?e' src ?fp base lm ex2 = None" using pc by simp
        then show ?thesis using None parse by (simp add: scan_shape_def)
      next
        case (Some o1)
        then obtain o2 where o2: "parseRouteFile ?e' src ?fp base lm ex2 = Some o2"
          "map_option route_core o2 = map_option route_core o1"
          using pc by (cases "parseRouteFile ?e' src ?fp base lm ex2") auto
        show ?thesis
        proof (cases o1)
          case None
          then have "o2 = None" using o2(2) by simp
          then show ?thesis using None Some o2(1) parse 4(3)[OF parse Some None] by simp
        next
          case (Some r)
          then obtain r' where r': "o2 = Some r'" "route_core r' = route_core r"
            using o2(2) by (cases o2) auto
          have ih: "scan_shape (scan_entries ?e' src c2 dirPath base lm ex2 es) =
                    scan_shape (scan_entries e src cache dirPath base lm ex es)"
            using 4(4)[OF parse \<open>parseRouteFile e src ?fp base lm ex = Some o1\<close> Some] by simp
          show ?thesis
            using Some \<open>parseRouteFile e src ?fp base lm ex = Some o1\<close> o2(1) r' parse
              shape_then_routes[OF ih, of "[r']" "[r]"] by simp
        qed
      qed
    qed
  qed
next
  case (5 e src cache dirPath base lm ex n children es)
  show ?case
  proof (intro allI)
    fix c2 ex2
    let ?e' = "e\<lparr>load_expectations := f\<rparr>"
    show "scan_shape (scan_entries ?e' src c2 dirPath base lm ex2 (DirEnt n children # es)) =
          scan_shape (scan_entries e src cache dirPath base lm ex (DirEnt n children # es))"
    proof (cases "startsWith n ''_''")
      case True
      then show ?thesis using 5(1) by simp
    next
      case False
      have sub: "scan_shape (scan_listing ?e' src c2 (path_join [dirPath, n])
                   (replace_backslashes (path_join [base, strip_group n])) (Some children)) =
                 scan_shape (scan_listing e src cache (path_join [dirPath, n])
                   (replace_backslashes (path_join [base, strip_group n])) (Some children))"
        using 5(2)[OF False] by simp
      have rest: "\<And>x x' rs. scan_listing e src cache (path_join [dirPath, n])
                   (replace_backslashes (path_join [base, strip_group n])) (Some children) = Some (x, Inr rs)
           \<Longrightarrow> scan_shape (scan_entries ?e' src x' dirPath base lm ex2 es) =
               scan_shape (scan_entries e src x dirPath base lm ex es)"
        using 5(3)[OF False] by simp
      show ?thesis using False shape_dir_step[OF sub rest] by simp
    qed
  qed
next
  case (6 e src cache dirPath base lm ex n es)
  show ?case
  proof (intro allI)
    fix c2 ex2
    let ?e' = "e\<lparr>load_expectations := f\<rparr>"
    show "scan_shape (scan_entries ?e' src c2 dirPath base lm ex2 (LockedDirEnt n # es)) =
          scan_shape (scan_entries e src cache dirPath base lm ex (LockedDirEnt n # es))"
    proof (cases "startsWith n ''_''")
      case True
      then show ?thesis using 6(1) by simp
    next
      case False
      have sub: "scan_shape (scan_listing ?e' src c2 (path_join [dirPath, n])
                   (replace_backslashes (path_join [base, strip_group n])) None) =
                 scan_shape (scan_listing e src cache (path_join [dirPath, n])
                   (replace_backslashes (path_join [base, strip_group n])) None)"
        using 6(2)[OF False] by simp
      have rest: "\<And>x x' rs. scan_listing e src cache (path_join [dirPath, n])
                   (replace_backslashes (path_join [base, strip_group n])) None = Some (x, Inr rs)
           \<Longrightarrow> scan_shape (scan_entries ?e' src x' dirPath base lm ex2 es) =
               scan_shape (scan_entries e src x dirPath base lm ex es)"
        using 6(3)[OF False] by simp
      show ?thesis using False shape_dir_step[OF sub rest] by simp
    qed
  qed
next
  case (7 e src cache dirPath base lm ex n es)
  then show ?case by auto
qed

text \<open>
  Claim C6, as the code has it. When every directory of the scanned tree can be
  listed, the scan does not end in an error, whatever the loading of the expectations
  modules does: a failed load is caught. The scan also goes on over the same entries:
  with any other behaviour \<open>f\<close> of the loader and any other cache it finds routes with
  the same paths, methods, handlers and middleware chains. (The listing of a directory
  is the one call whose error is rethrown; see the counterexample.)
\<close>

theorem scanDirectory_expectations_isolated:
  assumes "readdirSync e dirPath = Some entries"
    and "list_all readable entries"
  shows "(\<forall>c1 err. scanDirectory e src c dirPath base \<noteq> Some (c1, Inl err)) \<and>
         scan_shape (scanDirectory (e\<lparr>load_expectations := f\<rparr>) src c2 dirPath base) =
         scan_shape (scanDirectory e src c dirPath base)"
proof -
  have "no_error (scan_listing e src c dirPath base (Some entries))"
    using scan_no_error(1)[where l="Some entries" and e=e and src=src and c=c and d=dirPath and b=base]
      assms(2) by simp
  then have "\<forall>c1 err. scanDirectory e src c dirPath base \<noteq> Some (c1, Inl err)"
    using assms(1) by (auto simp: scanDirectory_def no_error_def)
  moreover have "scan_shape (scanDirectory (e\<lparr>load_expectations := f\<rparr>) src c2 dirPath base) =
         scan_shape (scanDirectory e src c dirPath base)"
    using scan_shape_loader(1)[where f=f and e=e and src=src and d=dirPath and b=base
        and l="readdirSync e dirPath" and c=c]
    by (simp add: scanDirectory_def)
  ultimately show ?thesis by simp
qed

text \<open>
  \<open>/app/src\<close> holds \<open>expectations.ts\<close>, whose load throws, and \<open>list.get.ts\<close>: the scan
  returns the route of \<open>list.get.ts\<close>.
\<close>

theorem scanDirectory_expectations_isolated_witness:
  "readdirSync
     (demo_env [''/app/src'', ''/app/src/expectations.ts'', ''/app/src/list.get.ts'']
        [(''/app/src'', [FileEnt ''expectations.ts'', FileEnt ''list.get.ts''])])
     ''/app/src'' = Some [FileEnt ''expectations.ts'', FileEnt ''list.get.ts''] \<and>
   list_all readable [FileEnt ''expectations.ts'', FileEnt ''list.get.ts''] \<and>
   (\<forall>c1 err.
      scanDirectory
        (demo_env [''/app/src'', ''/app/src/expectations.ts'', ''/app/src/list.get.ts'']
           [(''/app/src'', [FileEnt ''expectations.ts'', FileEnt ''list.get.ts''])])
        ''/app/src'' Map.empty ''/app/src'' [] \<noteq> Some (c1, Inl err)) \<and>
   scan_shape
     (scanDirectory
        (demo_env [''/app/src'', ''/app/src/expectations.ts'', ''/app/src/list.get.ts'']
           [(''/app/src'', [FileEnt ''expectations.ts'', FileEnt ''list.get.ts''])])
        ''/app/src'' Map.empty ''/app/src'' []) =
     Some (Inr [(''/list'', ''get'', ''/app/src/list.get.ts'', [])])"
proof -
  let ?e = "demo_env [''/app/src'', ''/app/src/expectations.ts'', ''/app/src/list.get.ts'']
        [(''/app/src'', [FileEnt ''expectations.ts'', FileEnt ''list.get.ts''])]"
  have h1: "readdirSync ?e ''/app/src'' =
      Some [FileEnt ''expectations.ts'', FileEnt ''list.get.ts'']"
    by (simp add: demo_env_def)
  have h2: "list_all readable [FileEnt ''expectations.ts'', FileEnt ''list.get.ts'']"
    by simp
  have ev: "scan_shape (scanDirectory ?e ''/app/src'' Map.empty ''/app/src'' []) =
      Some (Inr [(''/list'', ''get'', ''/app/src/list.get.ts'', [])])"
    by code_simp
  show ?thesis
    using h1 h2 ev
      scanDirectory_expectations_isolated
        [OF h1 h2, where src="''/app/src''" and c=Map.empty and base="[]"
          and f="load_expectations ?e" and ?c2.0=Map.empty]
    by blast
qed

text \<open>
  Claim C6 as stated fails for a directory that cannot be listed: \<open>/app/src\<close> holds the
  route file \<open>list.get.ts\<close> and the locked directory \<open>private\<close>, and the scan ends in
  the rethrown error, with no route.
\<close>

theorem scanDirectory_listing_error_propagates:
  "map_option snd
     (scanDirectory
        (demo_env [''/app/src'', ''/app/src/list.get.ts'', ''/app/src/private'']
           [(''/app/src'', [FileEnt ''list.get.ts'', LockedDirEnt ''private''])])
        ''/app/src'' Map.empty ''/app/src'' []) =
   Some (Inl (ReaddirFailed ''/app/src/private''))"
  by code_simp

section \<open>The middleware chain\<close>

lemma plain_middleware: "plain_segment ''middleware.ts''"
  by (simp add: plain_segment_def slash_def)

lemma path_join_middleware:
  assumes "S \<noteq> []" "\<forall>s\<in>set S. plain_segment s"
  shows "path_join [abs_path S, ''middleware.ts''] = abs_path S @ ''/middleware.ts''"
  using path_join_abs[OF assms plain_middleware] by (simp add: abs_path_snoc slash_def)

lemma ancestor_dirs_snoc:
  "ancestor_dirs S (ms @ [n]) = abs_path (S @ ms) # ancestor_dirs S ms"
  by (simp add: ancestor_dirs_def)

lemma abs_path_neq_longer:
  assumes "plain_segment n"
  shows "abs_path (S @ ms @ [n]) \<noteq> abs_path S"
proof
  assume "abs_path (S @ ms @ [n]) = abs_path S"
  then have "length (abs_path (S @ ms @ [n])) = length (abs_path S)" by simp
  then show False by (simp add: abs_path_def)
qed

lemma abs_path_not_dot: "S \<noteq> [] \<Longrightarrow> abs_path S \<noteq> ''.''"
  by (cases S) (auto simp: abs_path_def slash_def)

lemma dirname_abs:
  assumes "S \<noteq> []" "\<forall>s\<in>set S. plain_segment s" "plain_segment n"
  shows "dirname (abs_path (S @ [n])) = abs_path S"
  using dirname_append[of "abs_path S" n] abs_path_nonempty[OF assms(1)] abs_path_last[OF assms(1,2)] assms(3)
  by (simp add: abs_path_snoc plain_segment_def)

lemma basename_abs:
  assumes "plain_segment n"
  shows "basename (abs_path (S @ [n])) = n"
  using basename_append[of n "abs_path S"] assms by (simp add: abs_path_snoc plain_segment_def)

lemma walk_to_root:
  assumes "S \<noteq> []" "\<forall>s\<in>set S. plain_segment s" "\<forall>n\<in>set ns. plain_segment n"
  shows "collect_parent_middlewares ex (abs_path S) (abs_path (S @ ns)) acc =
         Some (acc @ filter ex (map (\<lambda>d. d @ ''/middleware.ts'') (ancestor_dirs S ns)))"
  using assms(3)
proof (induction ns arbitrary: acc rule: rev_induct)
  case Nil
  show ?case by (subst collect_parent_middlewares.simps) (simp add: ancestor_dirs_def)
next
  case (snoc n ms)
  have pl: "S @ ms \<noteq> []" "\<forall>s\<in>set (S @ ms). plain_segment s" "plain_segment n"
    using assms snoc.prems by auto
  have ne: "abs_path (S @ ms @ [n]) \<noteq> abs_path S" using abs_path_neq_longer pl(3) by blast
  have nd: "abs_path (S @ ms @ [n]) \<noteq> ''.''" using abs_path_not_dot[of "S @ ms @ [n]"] by simp
  have dn: "dirname (abs_path (S @ ms @ [n])) = abs_path (S @ ms)"
    using dirname_abs[OF pl] by simp
  have mw: "path_join [abs_path (S @ ms), ''middleware.ts''] = abs_path (S @ ms) @ ''/middleware.ts''"
    using path_join_middleware[OF pl(1,2)] .
  have ih: "\<And>acc. collect_parent_middlewares ex (abs_path S) (abs_path (S @ ms)) acc =
         Some (acc @ filter ex (map (\<lambda>d. d @ ''/middleware.ts'') (ancestor_dirs S ms)))"
    using snoc.IH snoc.prems by simp
  show ?case
    by (subst collect_parent_middlewares.simps) (simp add: ne nd dn mw ih ancestor_dirs_snoc)
qed


lemma parse_chain:
  assumes "S \<noteq> []" "\<forall>s\<in>set S. plain_segment s" "\<forall>n\<in>set ns. plain_segment n"
    "plain_segment fname"
  shows "parseRouteFile e (abs_path S) (abs_path (S @ ns @ [fname])) b
           (local_middleware e (abs_path (S @ ns))) exps = Some None \<or>
         (\<exists>r. parseRouteFile e (abs_path S) (abs_path (S @ ns @ [fname])) b
                 (local_middleware e (abs_path (S @ ns))) exps = Some (Some r) \<and>
              handlerPath r = abs_path (S @ ns @ [fname]) \<and>
              middlewares r = chain_with_root (existsSync e) S ns)"
proof (cases "route_file_match fname")
  case None
  then show ?thesis using basename_abs[OF assms(4), of "S @ ns"] by (simp add: parseRouteFile_def)
next
  case (Some nm)
  obtain fileName m where nm: "nm = (fileName, m)" by (cases nm)
  have pl: "S @ ns \<noteq> []" "\<forall>s\<in>set (S @ ns). plain_segment s" using assms by auto
  have bn: "basename (abs_path (S @ ns @ [fname])) = fname"
    using basename_abs[OF assms(4), of "S @ ns"] by simp
  have dn: "dirname (abs_path (S @ ns @ [fname])) = abs_path (S @ ns)"
    using dirname_abs[OF pl assms(4)] by simp
  have mw: "path_join [abs_path (S @ ns), ''middleware.ts''] = abs_path (S @ ns) @ ''/middleware.ts''"
    using path_join_middleware[OF pl] .
  have walk: "collect_parent_middlewares (existsSync e) (abs_path S) (abs_path (S @ ns))
      (case local_middleware e (abs_path (S @ ns)) of Some mw \<Rightarrow> [mw] | None \<Rightarrow> []) =
      Some (chain_with_root (existsSync e) S ns)"
    using walk_to_root[OF assms(1,2,3)]
    by (simp add: local_middleware_def mw chain_with_root_def)
  show ?thesis
    using Some nm bn dn walk by (simp add: parseRouteFile_def Let_def)
qed

lemma scan_ok_then:
  assumes "\<forall>r\<in>set a. chain_ok e S ns0 r" "scan_ok e S ns0 rest"
  shows "scan_ok e S ns0 (then_routes a rest)"
proof -
  obtain c x where cx: "rest = Some (c, x)" "\<forall>rs. x = Inr rs \<longrightarrow> (\<forall>r\<in>set rs. chain_ok e S ns0 r)"
    using assms(2) by (auto simp: scan_ok_def)
  show ?thesis
  proof (cases x)
    case (Inl err)
    then show ?thesis using cx by (simp add: scan_ok_def then_routes_def)
  next
    case (Inr rs)
    then show ?thesis using cx assms(1) by (auto simp: scan_ok_def then_routes_def)
  qed
qed

lemma chain_ok_deeper:
  assumes "plain_segment n" "chain_ok e S (ns0 @ [n]) r"
  shows "chain_ok e S ns0 r"
proof -
  obtain ns fname where a: "\<forall>x\<in>set ns. plain_segment x" "plain_segment fname"
    "handlerPath r = abs_path (S @ (ns0 @ [n]) @ ns @ [fname])"
    "middlewares r = chain_with_root (existsSync e) S ((ns0 @ [n]) @ ns)"
    using assms(2) unfolding chain_ok_def by blast
  show ?thesis unfolding chain_ok_def
    using a assms(1) by (intro exI[of _ "n # ns"] exI[of _ fname]) simp
qed

lemma scan_ok_sub:
  assumes sub: "scan_ok e S (ns0 @ [n]) R" and n: "plain_segment n"
    and rest: "\<And>c rs. R = Some (c, Inr rs) \<Longrightarrow> scan_ok e S ns0 (K c)"
  shows "scan_ok e S ns0 (case R of None \<Rightarrow> None | Some (c, Inl err) \<Rightarrow> Some (c, Inl err)
                     | Some (c, Inr subRoutes) \<Rightarrow> then_routes subRoutes (K c))"
proof -
  obtain c x where cx: "R = Some (c, x)" "\<forall>rs. x = Inr rs \<longrightarrow> (\<forall>r\<in>set rs. chain_ok e S (ns0 @ [n]) r)"
    using sub by (auto simp: scan_ok_def)
  show ?thesis
  proof (cases x)
    case (Inl err)
    then show ?thesis using cx by (simp add: scan_ok_def)
  next
    case (Inr rs)
    have "\<forall>r\<in>set rs. chain_ok e S ns0 r" using cx(2) Inr chain_ok_deeper[OF n] by blast
    then show ?thesis using cx(1) Inr scan_ok_then[OF _ rest[of c rs]] by simp
  qed
qed

lemma path_join_under:
  assumes "S \<noteq> []" "\<forall>s\<in>set S. plain_segment s" "\<forall>n\<in>set ns. plain_segment n" "plain_segment n"
  shows "path_join [abs_path (S @ ns), n] = abs_path (S @ ns @ [n])"
proof -
  have "S @ ns \<noteq> []" "\<forall>s\<in>set (S @ ns). plain_segment s" using assms by auto
  then show ?thesis using path_join_abs[of "S @ ns" n] assms(4) by simp
qed

lemma scan_chain:
  "\<forall>ns0. src = abs_path S \<and> S \<noteq> [] \<and> (\<forall>s\<in>set S. plain_segment s) \<and> d = abs_path (S @ ns0) \<and>
      (\<forall>n\<in>set ns0. plain_segment n) \<and> (case l of None \<Rightarrow> True | Some es \<Rightarrow> list_all plain_entry es)
      \<longrightarrow> scan_ok e S ns0 (scan_listing e src c d b l)"
  "\<forall>ns0. src = abs_path S \<and> S \<noteq> [] \<and> (\<forall>s\<in>set S. plain_segment s) \<and> d = abs_path (S @ ns0) \<and>
      (\<forall>n\<in>set ns0. plain_segment n) \<and> list_all plain_entry es \<and> lm = local_middleware e d
      \<longrightarrow> scan_ok e S ns0 (scan_entries e src c d b lm ex es)"
proof (induction e src c d b l and e src c d b lm ex es rule: scan_listing_scan_entries.induct)
  case (1 e src cache dirPath base)
  then show ?case by (simp add: scan_ok_def)
next
  case (2 e src cache dirPath base entries)
  show ?case
  proof (intro allI impI)
    fix ns0
    assume a: "src = abs_path S \<and> S \<noteq> [] \<and> (\<forall>s\<in>set S. plain_segment s) \<and> dirPath = abs_path (S @ ns0) \<and>
      (\<forall>n\<in>set ns0. plain_segment n) \<and> (case Some entries of None \<Rightarrow> True | Some es \<Rightarrow> list_all plain_entry es)"
    show "scan_ok e S ns0 (scan_listing e src cache dirPath base (Some entries))"
    proof (cases "existsSync e dirPath")
      case False
      then show ?thesis by (simp add: scan_ok_def)
    next
      case True
      have nn: "\<not> \<not> existsSync e dirPath" using True by simp
      note ih = 2[OF nn refl refl refl refl refl refl, THEN spec[where x=ns0], THEN mp]
      have cond: "src = abs_path S \<and> S \<noteq> [] \<and> (\<forall>s\<in>set S. plain_segment s) \<and>
          dirPath = abs_path (S @ ns0) \<and> (\<forall>n\<in>set ns0. plain_segment n) \<and>
          list_all plain_entry entries \<and>
          (if existsSync e (path_join [dirPath, ''middleware.ts''])
           then Some (path_join [dirPath, ''middleware.ts'']) else None) =
          local_middleware e dirPath"
        using a by (simp add: local_middleware_def)
      show ?thesis using ih[OF cond] True by (simp add: Let_def)
    qed
  qed
next
  case (3 e src cache dirPath base lm ex)
  then show ?case by (simp add: scan_ok_def)
next
  case (4 e src cache dirPath base lm ex n es)
  show ?case
  proof (intro allI impI)
    fix ns0
    assume a: "src = abs_path S \<and> S \<noteq> [] \<and> (\<forall>s\<in>set S. plain_segment s) \<and> dirPath = abs_path (S @ ns0) \<and>
      (\<forall>n\<in>set ns0. plain_segment n) \<and> list_all plain_entry (FileEnt n # es) \<and> lm = local_middleware e dirPath"
    then have a': "src = abs_path S \<and> S \<noteq> [] \<and> (\<forall>s\<in>set S. plain_segment s) \<and> dirPath = abs_path (S @ ns0) \<and>
      (\<forall>n\<in>set ns0. plain_segment n) \<and> list_all plain_entry es \<and> lm = local_middleware e dirPath"
      and n: "plain_segment n" by simp_all
    have pj: "path_join [dirPath, n] = abs_path (S @ ns0 @ [n])"
      using path_join_under[of S ns0 n] a n by simp
    consider (ignored) "startsWith n ''_''"
      | (special) "\<not> startsWith n ''_''" "endsWith n ''.ts''" "n = ''middleware.ts'' \<or> n = ''expectations.ts''"
      | (other) "\<not> startsWith n ''_''" "\<not> endsWith n ''.ts''"
      | (parse) "\<not> startsWith n ''_''" "endsWith n ''.ts''" "\<not> (n = ''middleware.ts'' \<or> n = ''expectations.ts'')"
      by blast
    then show "scan_ok e S ns0 (scan_entries e src cache dirPath base lm ex (FileEnt n # es))"
    proof cases
      case ignored
      then show ?thesis using 4(1)[OF ignored, THEN spec[where x=ns0], THEN mp, OF a'] by simp
    next
      case special
      then show ?thesis using 4(2)[OF special, THEN spec[where x=ns0], THEN mp, OF a'] by simp
    next
      case other
      then show ?thesis using 4(5)[OF other, THEN spec[where x=ns0], THEN mp, OF a'] by simp
    next
      case parse
      have pc: "parseRouteFile e src (path_join [dirPath, n]) base lm ex = Some None \<or>
         (\<exists>r. parseRouteFile e src (path_join [dirPath, n]) base lm ex = Some (Some r) \<and>
              handlerPath r = abs_path (S @ ns0 @ [n]) \<and>
              middlewares r = chain_with_root (existsSync e) S ns0)"
        using parse_chain[of S ns0 n e base ex] a n pj by simp
      then consider (null) "parseRouteFile e src (path_join [dirPath, n]) base lm ex = Some None"
        | (route) r where "parseRouteFile e src (path_join [dirPath, n]) base lm ex = Some (Some r)"
            "handlerPath r = abs_path (S @ ns0 @ [n])"
            "middlewares r = chain_with_root (existsSync e) S ns0"
        by blast
      then show ?thesis
      proof cases
        case null
        then show ?thesis
          using parse 4(3)[OF parse null refl, THEN spec[where x=ns0], THEN mp, OF a'] by simp
      next
        case route
        have "chain_ok e S ns0 r" unfolding chain_ok_def
          using route(2,3) n by (intro exI[of _ "[]"] exI[of _ n]) simp
        then have "\<forall>x\<in>set [r]. chain_ok e S ns0 x" by simp
        moreover have "scan_ok e S ns0 (scan_entries e src cache dirPath base lm ex es)"
          using 4(4)[OF parse route(1) refl, THEN spec[where x=ns0], THEN mp, OF a'] .
        ultimately have "scan_ok e S ns0 (then_routes [r] (scan_entries e src cache dirPath base lm ex es))"
          by (rule scan_ok_then)
        then show ?thesis using parse route(1) by simp
      qed
    qed
  qed
next
  case (5 e src cache dirPath base lm ex n children es)
  show ?case
  proof (intro allI impI)
    fix ns0
    assume a: "src = abs_path S \<and> S \<noteq> [] \<and> (\<forall>s\<in>set S. plain_segment s) \<and> dirPath = abs_path (S @ ns0) \<and>
      (\<forall>n\<in>set ns0. plain_segment n) \<and> list_all plain_entry (DirEnt n children # es) \<and> lm = local_middleware e dirPath"
    then have a': "src = abs_path S \<and> S \<noteq> [] \<and> (\<forall>s\<in>set S. plain_segment s) \<and> dirPath = abs_path (S @ ns0) \<and>
      (\<forall>n\<in>set ns0. plain_segment n) \<and> list_all plain_entry es \<and> lm = local_middleware e dirPath"
      and n: "plain_segment n" and ch: "list_all plain_entry children" by simp_all
    have pj: "path_join [dirPath, n] = abs_path (S @ (ns0 @ [n]))"
      using path_join_under[of S ns0 n] a n by simp
    show "scan_ok e S ns0 (scan_entries e src cache dirPath base lm ex (DirEnt n children # es))"
    proof (cases "startsWith n ''_''")
      case True
      then show ?thesis using 5(1)[OF True, THEN spec[where x=ns0], THEN mp, OF a'] by simp
    next
      case False
      have cond: "src = abs_path S \<and> S \<noteq> [] \<and> (\<forall>s\<in>set S. plain_segment s) \<and>
          path_join [dirPath, n] = abs_path (S @ (ns0 @ [n])) \<and>
          (\<forall>x\<in>set (ns0 @ [n]). plain_segment x) \<and>
          (case Some children of None \<Rightarrow> True | Some es \<Rightarrow> list_all plain_entry es)"
        using a n ch pj by simp
      have sub: "scan_ok e S (ns0 @ [n]) (scan_listing e src cache (path_join [dirPath, n])
                   (replace_backslashes (path_join [base, strip_group n])) (Some children))"
        using 5(2)[OF False, THEN spec[where x="ns0 @ [n]"], THEN mp, OF cond] .
      have rest: "\<And>c rs. scan_listing e src cache (path_join [dirPath, n])
                   (replace_backslashes (path_join [base, strip_group n])) (Some children) = Some (c, Inr rs)
           \<Longrightarrow> scan_ok e S ns0 (scan_entries e src c dirPath base lm ex es)"
        using 5(3)[OF False _ refl refl, THEN spec[where x=ns0], THEN mp, OF _ a'] by blast
      show ?thesis using False scan_ok_sub[OF sub n rest] by simp
    qed
  qed
next
  case (6 e src cache dirPath base lm ex n es)
  show ?case
  proof (intro allI impI)
    fix ns0
    assume a: "src = abs_path S \<and> S \<noteq> [] \<and> (\<forall>s\<in>set S. plain_segment s) \<and> dirPath = abs_path (S @ ns0) \<and>
      (\<forall>n\<in>set ns0. plain_segment n) \<and> list_all plain_entry (LockedDirEnt n # es) \<and> lm = local_middleware e dirPath"
    then have a': "src = abs_path S \<and> S \<noteq> [] \<and> (\<forall>s\<in>set S. plain_segment s) \<and> dirPath = abs_path (S @ ns0) \<and>
      (\<forall>n\<in>set ns0. plain_segment n) \<and> list_all plain_entry es \<and> lm = local_middleware e dirPath"
      and n: "plain_segment n" by simp_all
    have pj: "path_join [dirPath, n] = abs_path (S @ (ns0 @ [n]))"
      using path_join_under[of S ns0 n] a n by simp
    show "scan_ok e S ns0 (scan_entries e src cache dirPath base lm ex (LockedDirEnt n # es))"
    proof (cases "startsWith n ''_''")
      case True
      then show ?thesis using 6(1)[OF True, THEN spec[where x=ns0], THEN mp, OF a'] by simp
    next
      case False
      have cond: "src = abs_path S \<and> S \<noteq> [] \<and> (\<forall>s\<in>set S. plain_segment s) \<and>
          path_join [dirPath, n] = abs_path (S @ (ns0 @ [n])) \<and>
          (\<forall>x\<in>set (ns0 @ [n]). plain_segment x) \<and>
          (case None :: dirent list option of None \<Rightarrow> True | Some es \<Rightarrow> list_all plain_entry es)"
        using a n pj by simp
      have sub: "scan_ok e S (ns0 @ [n]) (scan_listing e src cache (path_join [dirPath, n])
                   (replace_backslashes (path_join [base, strip_group n])) None)"
        using 6(2)[OF False, THEN spec[where x="ns0 @ [n]"], THEN mp, OF cond] .
      have rest: "\<And>c rs. scan_listing e src cache (path_join [dirPath, n])
                   (replace_backslashes (path_join [base, strip_group n])) None = Some (c, Inr rs)
           \<Longrightarrow> scan_ok e S ns0 (scan_entries e src c dirPath base lm ex es)"
        using 6(3)[OF False _ refl refl, THEN spec[where x=ns0], THEN mp, OF _ a'] by blast
      show ?thesis using False scan_ok_sub[OF sub n rest] by simp
    qed
  qed
next
  case (7 e src cache dirPath base lm ex n es)
  show ?case
  proof (intro allI impI)
    fix ns0
    assume a: "src = abs_path S \<and> S \<noteq> [] \<and> (\<forall>s\<in>set S. plain_segment s) \<and> dirPath = abs_path (S @ ns0) \<and>
      (\<forall>n\<in>set ns0. plain_segment n) \<and> list_all plain_entry (OtherEnt n # es) \<and> lm = local_middleware e dirPath"
    then have a': "src = abs_path S \<and> S \<noteq> [] \<and> (\<forall>s\<in>set S. plain_segment s) \<and> dirPath = abs_path (S @ ns0) \<and>
      (\<forall>n\<in>set ns0. plain_segment n) \<and> list_all plain_entry es \<and> lm = local_middleware e dirPath"
      by simp
    show "scan_ok e S ns0 (scan_entries e src cache dirPath base lm ex (OtherEnt n # es))"
    proof (cases "startsWith n ''_''")
      case True
      then show ?thesis using 7(1)[OF True, THEN spec[where x=ns0], THEN mp, OF a'] by simp
    next
      case False
      then show ?thesis using 7(2)[OF False, THEN spec[where x=ns0], THEN mp, OF a'] by simp
    qed
  qed
qed


text \<open>
  Claim C3, as the code has it. Let the source directory be the normalized absolute
  path \<open>S\<close> and let a scan start in a directory \<open>S/ns0\<close> whose tree has plain names.
  The scan returns, and every route it finds, for a handler file in a directory
  \<open>S/ns0/ns\<close>, has the chain: the middleware declaration of that directory first, then
  the declaration of every directory above it, nearest first, up to and including the
  source directory.
\<close>

theorem scan_middleware_chain:
  assumes "S \<noteq> []" and "\<forall>s\<in>set S. plain_segment s"
    and "\<forall>n\<in>set ns0. plain_segment n"
    and "readdirSync e (abs_path (S @ ns0)) = Some entries"
    and "list_all plain_entry entries"
  shows "\<exists>c x. scanDirectory e (abs_path S) c0 (abs_path (S @ ns0)) base = Some (c, x) \<and>
           (\<forall>rs. x = Inr rs \<longrightarrow>
              (\<forall>r\<in>set rs. \<exists>ns fname.
                  (\<forall>n\<in>set ns. plain_segment n) \<and> plain_segment fname \<and>
                  handlerPath r = abs_path (S @ ns0 @ ns @ [fname]) \<and>
                  middlewares r = chain_with_root (existsSync e) S (ns0 @ ns)))"
proof -
  have cond: "abs_path S = abs_path S \<and> S \<noteq> [] \<and> (\<forall>s\<in>set S. plain_segment s) \<and>
      abs_path (S @ ns0) = abs_path (S @ ns0) \<and> (\<forall>n\<in>set ns0. plain_segment n) \<and>
      (case Some entries of None \<Rightarrow> True | Some es \<Rightarrow> list_all plain_entry es)"
    using assms by simp
  have "scan_ok e S ns0 (scan_listing e (abs_path S) c0 (abs_path (S @ ns0)) base (Some entries))"
    using scan_chain(1)[where src="abs_path S" and S=S and d="abs_path (S @ ns0)"
        and l="Some entries" and e=e and c=c0 and b=base, THEN spec[where x=ns0], THEN mp, OF cond] .
  then show ?thesis
    using assms(4) unfolding scan_ok_def chain_ok_def scanDirectory_def by simp
qed

text \<open>
  The scan of \<open>/app/src\<close> with a declaration in \<open>/app/src\<close>, \<open>/app/src/a\<close> and
  \<open>/app/src/a/b\<close>, and the handler \<open>/app/src/a/b/x.get.ts\<close>.
\<close>

lemma chain_env_scan:
  "scan_shape (scanDirectory chain_env ''/app/src'' Map.empty ''/app/src'' []) =
     Some (Inr [(''a/b/x'', ''get'', ''/app/src/a/b/x.get.ts'',
       [''/app/src/a/b/middleware.ts'', ''/app/src/a/middleware.ts'',
        ''/app/src/middleware.ts''])])"
  by code_simp

theorem scan_middleware_chain_witness:
  "list_all plain_segment [''app'', ''src''] \<and>
   readdirSync chain_env (abs_path ([''app'', ''src''] @ [])) = Some chain_tree \<and>
   list_all plain_entry chain_tree \<and>
   (\<exists>c x. scanDirectory chain_env (abs_path [''app'', ''src'']) Map.empty
             (abs_path ([''app'', ''src''] @ [])) [] = Some (c, x) \<and>
           (\<forall>rs. x = Inr rs \<longrightarrow>
              (\<forall>r\<in>set rs. \<exists>ns fname.
                  (\<forall>n\<in>set ns. plain_segment n) \<and> plain_segment fname \<and>
                  handlerPath r = abs_path ([''app'', ''src''] @ [] @ ns @ [fname]) \<and>
                  middlewares r =
                    chain_with_root (existsSync chain_env) [''app'', ''src''] ([] @ ns)))) \<and>
   scan_shape (scanDirectory chain_env ''/app/src'' Map.empty ''/app/src'' []) =
     Some (Inr [(''a/b/x'', ''get'', ''/app/src/a/b/x.get.ts'',
       [''/app/src/a/b/middleware.ts'', ''/app/src/a/middleware.ts'',
        ''/app/src/middleware.ts''])])"
proof -
  have h1: "[''app'', ''src''] \<noteq> []" by simp
  have h2: "\<forall>s\<in>set [''app'', ''src'']. plain_segment s"
    by (simp add: plain_segment_def slash_def)
  have h3: "\<forall>n\<in>set ([] :: string list). plain_segment n" by simp
  have h4: "readdirSync chain_env (abs_path ([''app'', ''src''] @ [])) = Some chain_tree"
    by (simp add: chain_env_def demo_env_def abs_path_def slash_def)
  have h5: "list_all plain_entry chain_tree"
    by (simp add: chain_tree_def plain_segment_def slash_def)
  have h2': "list_all plain_segment [''app'', ''src'']" using h2 by (simp add: list_all_iff)
  note t = scan_middleware_chain [OF h1 h2 h3 h4 h5, where ?c0.0 = Map.empty and base = "[]"]
  show ?thesis
    by (intro conjI) (rule h2' h4 h5 t chain_env_scan)+
qed

text \<open>
  Claim C3 as stated fails: for the handler \<open>/app/src/a/b/x.get.ts\<close> the chain of the
  scan ends with \<open>/app/src/middleware.ts\<close>, the declaration of the source directory,
  which the chain of the claim leaves out.
\<close>

theorem scan_chain_includes_source_root:
  "scan_shape (scanDirectory chain_env ''/app/src'' Map.empty ''/app/src'' []) =
     Some (Inr [(''a/b/x'', ''get'', ''/app/src/a/b/x.get.ts'',
       [''/app/src/a/b/middleware.ts'', ''/app/src/a/middleware.ts'',
        ''/app/src/middleware.ts''])]) \<and>
   claimed_chain (existsSync chain_env) [''app'', ''src''] [''a'', ''b''] =
     [''/app/src/a/b/middleware.ts'', ''/app/src/a/middleware.ts'']"
proof -
  have "claimed_chain (existsSync chain_env) [''app'', ''src''] [''a'', ''b''] =
     [''/app/src/a/b/middleware.ts'', ''/app/src/a/middleware.ts'']"
    by code_simp
  then show ?thesis using chain_env_scan by simp
qed

text \<open>
  The change of a single file takes another path: \<open>handleFileChange\<close> calls
  \<open>parseRouteFile\<close> without the local middleware, and the chain of the same handler
  lacks the declaration of its own directory.
\<close>

lemma handleFileChange_chain_lacks_local:
  "map_option (map_option middlewares)
     (parseRouteFile chain_env ''/app/src'' ''/app/src/a/b/x.get.ts'' [] None None) =
   Some (Some [''/app/src/a/middleware.ts'', ''/app/src/middleware.ts''])"
  by code_simp

section \<open>The routes of a scan and the places they come from\<close>

lemma came_from_mono: "set s1 \<subseteq> set s2 \<Longrightarrow> came_from e src s1 r \<Longrightarrow> came_from e src s2 r"
  unfolding came_from_def by blast

lemma routes_from_then:
  assumes "\<forall>r\<in>set a. came_from e src s1 r" "routes_from e src s2 rest"
  shows "routes_from e src (s1 @ s2) (then_routes a rest)"
proof (cases rest rule: scan_result_cases)
  case Diverges
  then show ?thesis by (simp add: routes_from_def then_routes_simps)
next
  case (Fails c err)
  then show ?thesis by (simp add: routes_from_def then_routes_simps)
next
  case (Returns c rs)
  have 1: "\<forall>r\<in>set a. came_from e src (s1 @ s2) r"
    using assms(1) came_from_mono[of s1 "s1 @ s2"] by auto
  have 2: "\<forall>r\<in>set rs. came_from e src (s1 @ s2) r"
    using assms(2) Returns came_from_mono[of s2 "s1 @ s2"] by (auto simp: routes_from_def)
  show ?thesis using Returns 1 2 by (auto simp: routes_from_def then_routes_simps)
qed

lemma routes_from_sub:
  assumes sub: "routes_from e src s1 R"
    and rest: "\<And>c rs. R = Some (c, Inr rs) \<Longrightarrow> routes_from e src s2 (K c)"
  shows "routes_from e src (s1 @ s2)
           (case R of None \<Rightarrow> None | Some (c, Inl err) \<Rightarrow> Some (c, Inl err)
            | Some (c, Inr subRoutes) \<Rightarrow> then_routes subRoutes (K c))"
proof (cases R rule: scan_result_cases)
  case Diverges
  then show ?thesis by (simp add: routes_from_def)
next
  case (Fails c err)
  then show ?thesis by (simp add: routes_from_def)
next
  case (Returns c rs)
  have "\<forall>r\<in>set rs. came_from e src s1 r" using sub Returns by (simp add: routes_from_def)
  then have "routes_from e src (s1 @ s2) (then_routes rs (K c))"
    using routes_from_then rest[OF Returns] by blast
  then show ?thesis using Returns by simp
qed

lemma routes_from_weaken:
  "routes_from e src s2 res \<Longrightarrow> routes_from e src (s1 @ s2) res"
  unfolding routes_from_def using came_from_mono[of s2 "s1 @ s2"] by auto

lemma scan_routes_from_sites:
  "routes_from e src (case l of None \<Rightarrow> [] | Some es \<Rightarrow> scan_sites d b es)
     (scan_listing e src c d b l)"
  "lm = local_middleware e d \<longrightarrow>
     routes_from e src (scan_sites d b es) (scan_entries e src c d b lm ex es)"
proof (induction e src c d b l and e src c d b lm ex es rule: scan_listing_scan_entries.induct)
  case (1 e src cache dirPath base)
  then show ?case by (simp add: routes_from_def)
next
  case (2 e src cache dirPath base entries)
  show ?case
  proof (cases "existsSync e dirPath")
    case False
    then show ?thesis by (simp add: routes_from_def)
  next
    case True
    have nn: "\<not> \<not> existsSync e dirPath" using True by simp
    note ih = 2[OF nn refl refl refl refl refl refl, THEN mp]
    have cond: "(if existsSync e (path_join [dirPath, ''middleware.ts''])
           then Some (path_join [dirPath, ''middleware.ts'']) else None) =
          local_middleware e dirPath"
      by (simp add: local_middleware_def)
    show ?thesis using ih[OF cond] True by (simp add: Let_def)
  qed
next
  case (3 e src cache dirPath base lm ex)
  then show ?case by (simp add: routes_from_def)
next
  case (4 e src cache dirPath base lm ex n es)
  show ?case
  proof (intro impI)
    assume lm: "lm = local_middleware e dirPath"
    consider (ignored) "startsWith n ''_''"
      | (special) "\<not> startsWith n ''_''" "endsWith n ''.ts''" "n = ''middleware.ts'' \<or> n = ''expectations.ts''"
      | (other) "\<not> startsWith n ''_''" "\<not> endsWith n ''.ts''"
      | (parse) "\<not> startsWith n ''_''" "endsWith n ''.ts''" "\<not> (n = ''middleware.ts'' \<or> n = ''expectations.ts'')"
      by blast
    then show "routes_from e src (scan_sites dirPath base (FileEnt n # es))
                 (scan_entries e src cache dirPath base lm ex (FileEnt n # es))"
    proof cases
      case ignored
      then show ?thesis using 4(1)[OF ignored, THEN mp, OF lm] by simp
    next
      case special
      then show ?thesis using 4(2)[OF special, THEN mp, OF lm] by auto
    next
      case other
      then show ?thesis using 4(5)[OF other, THEN mp, OF lm] by simp
    next
      case parse
      show ?thesis
      proof (cases "parseRouteFile e src (path_join [dirPath, n]) base lm ex")
        case None
        then show ?thesis using parse by (simp add: routes_from_def)
      next
        case (Some o1)
        show ?thesis
        proof (cases o1)
          case None
          have "routes_from e src (scan_sites dirPath base es)
                  (scan_entries e src cache dirPath base lm ex es)"
            using 4(3)[OF parse Some None, THEN mp, OF lm] .
          then have "routes_from e src ([(dirPath, base, n)] @ scan_sites dirPath base es)
                  (scan_entries e src cache dirPath base lm ex es)"
            by (rule routes_from_weaken)
          then show ?thesis using parse Some None by simp
        next
          case r: (Some r)
          have "came_from e src [(dirPath, base, n)] r"
            unfolding came_from_def using Some r lm by auto
          then have "\<forall>x\<in>set [r]. came_from e src [(dirPath, base, n)] x" by simp
          moreover have "routes_from e src (scan_sites dirPath base es)
                  (scan_entries e src cache dirPath base lm ex es)"
            using 4(4)[OF parse Some r, THEN mp, OF lm] .
          ultimately have "routes_from e src ([(dirPath, base, n)] @ scan_sites dirPath base es)
              (then_routes [r] (scan_entries e src cache dirPath base lm ex es))"
            by (rule routes_from_then)
          then show ?thesis using parse Some r by simp
        qed
      qed
    qed
  qed
next
  case (5 e src cache dirPath base lm ex n children es)
  show ?case
  proof (intro impI)
    assume lm: "lm = local_middleware e dirPath"
    show "routes_from e src (scan_sites dirPath base (DirEnt n children # es))
            (scan_entries e src cache dirPath base lm ex (DirEnt n children # es))"
    proof (cases "startsWith n ''_''")
      case True
      then show ?thesis using 5(1)[OF True, THEN mp, OF lm] by simp
    next
      case False
      have sub: "routes_from e src
                   (scan_sites (path_join [dirPath, n])
                      (replace_backslashes (path_join [base, strip_group n])) children)
                   (scan_listing e src cache (path_join [dirPath, n])
                      (replace_backslashes (path_join [base, strip_group n])) (Some children))"
        using 5(2)[OF False] by simp
      have rest: "\<And>c rs. scan_listing e src cache (path_join [dirPath, n])
                   (replace_backslashes (path_join [base, strip_group n])) (Some children) = Some (c, Inr rs)
           \<Longrightarrow> routes_from e src (scan_sites dirPath base es) (scan_entries e src c dirPath base lm ex es)"
        using 5(3)[OF False _ refl refl, THEN mp, OF _ lm] by blast
      show ?thesis using False routes_from_sub[OF sub rest] by simp
    qed
  qed
next
  case (6 e src cache dirPath base lm ex n es)
  show ?case
  proof (intro impI)
    assume lm: "lm = local_middleware e dirPath"
    show "routes_from e src (scan_sites dirPath base (LockedDirEnt n # es))
            (scan_entries e src cache dirPath base lm ex (LockedDirEnt n # es))"
    proof (cases "startsWith n ''_''")
      case True
      then show ?thesis using 6(1)[OF True, THEN mp, OF lm] by simp
    next
      case False
      have sub: "routes_from e src []
                   (scan_listing e src cache (path_join [dirPath, n])
                      (replace_backslashes (path_join [base, strip_group n])) None)"
        using 6(2)[OF False] by simp
      have rest: "\<And>c rs. scan_listing e src cache (path_join [dirPath, n])
                   (replace_backslashes (path_join [base, strip_group n])) None = Some (c, Inr rs)
           \<Longrightarrow> routes_from e src (scan_sites dirPath base es) (scan_entries e src c dirPath base lm ex es)"
        using 6(3)[OF False _ refl refl, THEN mp, OF _ lm] by blast
      show ?thesis using False routes_from_sub[OF sub rest] by simp
    qed
  qed
next
  case (7 e src cache dirPath base lm ex n es)
  show ?case
  proof (intro impI)
    assume lm: "lm = local_middleware e dirPath"
    show "routes_from e src (scan_sites dirPath base (OtherEnt n # es))
            (scan_entries e src cache dirPath base lm ex (OtherEnt n # es))"
    proof (cases "startsWith n ''_''")
      case True
      then show ?thesis using 7(1)[OF True, THEN mp, OF lm] by simp
    next
      case False
      then show ?thesis using 7(2)[OF False, THEN mp, OF lm] by simp
    qed
  qed
qed

section \<open>Group directories\<close>



lemma split_join:
  "segs \<noteq> [] \<Longrightarrow> \<forall>s\<in>set segs. c \<notin> set s \<Longrightarrow> split_on c (join_with [c] segs) = segs"
proof (induction segs rule: induct_list012)
  case 1
  then show ?case by simp
next
  case (2 x)
  then show ?case by (simp add: split_on_free)
next
  case (3 x y zs)
  then show ?case by (simp add: split_on_free_append)
qed

























section \<open>Entries that begin with an underscore\<close>

text \<open>
  Normalizing a path, joining a name to it and taking its directory make no segment
  that begins with \<open>_\<close>.
\<close>

lemma split_on_append: "split_on c (a @ c # b) = split_on c a @ split_on c b"
proof (induction a)
  case Nil
  then show ?case by simp
next
  case (Cons x xs)
  obtain s ss where s: "split_on c xs = s # ss"
    using split_on_nonempty[of c xs] by (cases "split_on c xs") auto
  show ?case using Cons s by simp
qed

lemma split_on_no_sep: "s \<in> set (split_on c p) \<Longrightarrow> c \<notin> set s"
proof (induction p arbitrary: s)
  case Nil
  then show ?case by simp
next
  case (Cons x xs)
  obtain t ts where t: "split_on c xs = t # ts"
    using split_on_nonempty[of c xs] by (cases "split_on c xs") auto
  show ?case
  proof (cases "x = c")
    case True
    then show ?thesis using Cons by auto
  next
    case False
    then have "s = x # t \<or> s \<in> set ts" using Cons.prems t by simp
    then show ?thesis using Cons.IH[of t] Cons.IH[of s] t False by auto
  qed
qed

lemma foldl_step_subset:
  "set (foldl (normalize_step a) acc segs) \<subseteq> set acc \<union> set segs \<union> {''..''}"
proof (induction segs arbitrary: acc)
  case Nil
  then show ?case by auto
next
  case (Cons x xs)
  have "set (normalize_step a acc x) \<subseteq> set acc \<union> {x} \<union> {''..''}"
    by (auto simp: normalize_step_def dest: in_set_butlastD)
  then show ?case using Cons[of "normalize_step a acc x"] by auto
qed

lemma has_ignored_slash_free: "slash \<notin> set n \<Longrightarrow> has_ignored n \<longleftrightarrow> startsWith n ''_''"
  by (simp add: has_ignored_def split_on_free)

lemma has_ignored_lead: "has_ignored (slash # x) \<longleftrightarrow> has_ignored x"
  by (simp add: has_ignored_def)

lemma has_ignored_append: "has_ignored (d @ slash # n) \<longleftrightarrow> has_ignored d \<or> has_ignored n"
  by (auto simp: has_ignored_def split_on_append list_ex_iff)

lemma has_ignored_trail: "has_ignored (x @ [slash]) \<longleftrightarrow> has_ignored x"
  using has_ignored_append[of x "[]"] by (simp add: has_ignored_def)

lemma has_ignored_normalizeString:
  assumes "has_ignored (normalizeString p a)"
  shows "has_ignored p"
proof -
  let ?segs = "normalize_segments a p"
  have sub: "set ?segs \<subseteq> set (split_on slash p) \<union> {''..''}"
    using foldl_step_subset[of a "[]" "split_on slash p"] by (simp add: normalize_segments_def)
  have free: "\<forall>s\<in>set ?segs. slash \<notin> set s"
  proof
    fix s assume "s \<in> set ?segs"
    then have "s \<in> set (split_on slash p) \<or> s = ''..''" using sub by auto
    then show "slash \<notin> set s" using split_on_no_sep[of s slash p] by (auto simp: slash_def)
  qed
  have ne: "?segs \<noteq> []"
  proof
    assume "?segs = []"
    then have "normalizeString p a = []" by (simp add: normalizeString_def)
    then show False using assms by (simp add: has_ignored_def)
  qed
  have "split_on slash (normalizeString p a) = ?segs"
    using split_join[OF ne free] by (simp add: normalizeString_def slash_def)
  then obtain seg where seg: "seg \<in> set ?segs" "startsWith seg ''_''"
    using assms by (auto simp: has_ignored_def list_ex_iff)
  then have "seg \<noteq> ''..''" by auto
  then have "seg \<in> set (split_on slash p)" using sub seg(1) by auto
  then show ?thesis using seg(2) by (auto simp: has_ignored_def list_ex_iff)
qed

lemma has_ignored_normalize:
  assumes "has_ignored (normalize p)"
  shows "has_ignored p"
proof (cases "p = []")
  case True
  then show ?thesis using assms by (simp add: normalize_def has_ignored_def slash_def)
next
  case False
  let ?q = "normalizeString p (\<not> isAbsolute p)"
  show ?thesis
  proof (cases "?q = []")
    case True
    then have "normalize p = ''/'' \<or> normalize p = ''./'' \<or> normalize p = ''.''"
      using False by (simp add: normalize_def Let_def)
    then show ?thesis using assms by (auto simp: has_ignored_def slash_def)
  next
    case q: False
    have np: "normalize p = (if isAbsolute p then [slash] else []) @ ?q @ (if last p = slash then [slash] else [])"
      using False q by (simp add: normalize_def Let_def slash_def)
    have "has_ignored ?q"
    proof (cases "isAbsolute p")
      case abs: True
      show ?thesis
      proof (cases "last p = slash")
        case True
        then have "has_ignored (slash # (?q @ [slash]))" using assms np abs by simp
        then show ?thesis using has_ignored_lead[of "?q @ [slash]"] has_ignored_trail[of ?q] by simp
      next
        case False
        then have "has_ignored (slash # ?q)" using assms np abs by simp
        then show ?thesis using has_ignored_lead[of ?q] by simp
      qed
    next
      case rel: False
      show ?thesis
      proof (cases "last p = slash")
        case True
        then have "has_ignored (?q @ [slash])" using assms np rel by simp
        then show ?thesis using has_ignored_trail[of ?q] by simp
      next
        case False
        then show ?thesis using assms np rel by simp
      qed
    qed
    then show ?thesis by (rule has_ignored_normalizeString)
  qed
qed

lemma has_ignored_path_join:
  assumes "\<not> has_ignored d" "slash \<notin> set n" "\<not> startsWith n ''_''"
  shows "\<not> has_ignored (path_join [d, n])"
proof
  assume h: "has_ignored (path_join [d, n])"
  have n: "\<not> has_ignored n" using assms(2,3) has_ignored_slash_free by simp
  consider (both) "d \<noteq> []" "n \<noteq> []" | (left) "d \<noteq> []" "n = []" | (right) "d = []" "n \<noteq> []"
    | (none) "d = []" "n = []" by blast
  then show False
  proof cases
    case both
    then have "path_join [d, n] = normalize (d @ slash # n)" by (simp add: path_join_def slash_def)
    then have "has_ignored (d @ slash # n)" using h has_ignored_normalize[of "d @ slash # n"] by simp
    then show False using assms(1) n has_ignored_append by simp
  next
    case left
    then have "path_join [d, n] = normalize d" by (simp add: path_join_def)
    then show False using h has_ignored_normalize[of d] assms(1) by simp
  next
    case right
    then have "path_join [d, n] = normalize n" by (simp add: path_join_def)
    then show False using h has_ignored_normalize[of n] n by simp
  next
    case none
    then show False using h by (simp add: path_join_def has_ignored_def slash_def)
  qed
qed

lemma dirname_cut:
  assumes "p = c # cs"
    and "b = dropWhile (\<lambda>x. x \<noteq> slash) (dropWhile (\<lambda>x. x = slash) (rev cs))"
    and "b \<noteq> []"
  shows "\<exists>rest. p = take (length b) p @ slash # rest"
proof -
  define a where "a = dropWhile (\<lambda>x. x = slash) (rev cs)"
  define pre where "pre = takeWhile (\<lambda>x. x = slash) (rev cs) @ takeWhile (\<lambda>x. x \<noteq> slash) a"
  have b: "b = dropWhile (\<lambda>x. x \<noteq> slash) a" using assms(2) a_def by simp
  have 1: "takeWhile (\<lambda>x. x = slash) (rev cs) @ a = rev cs"
    unfolding a_def by (rule takeWhile_dropWhile_id)
  have 2: "takeWhile (\<lambda>x. x \<noteq> slash) a @ b = a"
    unfolding b by (rule takeWhile_dropWhile_id)
  have pre: "rev cs = pre @ b"
    unfolding pre_def using 1 2 by (metis append_assoc)
  have "hd b = slash" using assms(3) hd_dropWhile[of "\<lambda>x. x \<noteq> slash" a] b by auto
  then obtain t where t: "b = slash # t" using assms(3) by (cases b) auto
  have "cs = rev (rev cs)" by simp
  also have "\<dots> = rev (pre @ slash # t)" using pre t by simp
  also have "\<dots> = rev t @ slash # rev pre" by simp
  finally have cs: "cs = rev t @ slash # rev pre" .
  have "take (length b) p = c # rev t" using assms(1) cs t by simp
  then show ?thesis using assms(1) cs by simp
qed

lemma has_ignored_dirname:
  assumes "has_ignored (dirname p)"
  shows "has_ignored p"
proof (cases p)
  case Nil
  then show ?thesis using assms by (simp add: dirname_def has_ignored_def slash_def)
next
  case (Cons c cs)
  define b where "b = dropWhile (\<lambda>x. x \<noteq> slash) (dropWhile (\<lambda>x. x = slash) (rev cs))"
  have dn: "dirname p =
      (if b = [] then (if c = slash then ''/'' else ''.'')
       else if c = slash \<and> length b = 1 then ''//'' else take (length b) p)"
    by (simp only: Cons b_def dirname_def Let_def list.case)
  have small: "\<not> has_ignored ''/''" "\<not> has_ignored ''.''" "\<not> has_ignored ''//''"
    by (simp_all add: has_ignored_def slash_def)
  show ?thesis
  proof (cases "b = []")
    case True
    then have "dirname p = ''/'' \<or> dirname p = ''.''" using dn by simp
    then show ?thesis using assms small by metis
  next
    case False
    show ?thesis
    proof (cases "c = slash \<and> length b = 1")
      case True
      then have "dirname p = ''//''" using dn False by simp
      then show ?thesis using assms small by metis
    next
      case nr: False
      have d: "dirname p = take (length b) p" using dn False nr by auto
      from dirname_cut[OF Cons b_def False]
      obtain rest where r: "p = take (length b) p @ slash # rest" by (elim exE)
      have h: "has_ignored (take (length b) p @ slash # rest)"
        using assms d has_ignored_append[of "take (length b) p" rest] by simp
      from r have "has_ignored p = has_ignored (take (length b) p @ slash # rest)"
        by (rule arg_cong)
      then show ?thesis using h by blast
    qed
  qed
qed

lemma sites_clean:
  "\<not> has_ignored d \<Longrightarrow> list_all plain_entry es \<Longrightarrow>
   \<forall>x\<in>set (scan_sites d b es). \<not> has_ignored (path_join [fst x, snd (snd x)])"
proof (induction d b es rule: scan_sites.induct)
  case (1 d b)
  then show ?case by simp
next
  case (2 d b n es)
  then have "slash \<notin> set n" by (simp add: plain_segment_def)
  then show ?case using 2 has_ignored_path_join[of d n] by auto
next
  case (3 d b n children es)
  have sn: "slash \<notin> set n" using 3(4) by (simp add: plain_segment_def)
  show ?case
  proof (cases "startsWith n ''_''")
    case True
    then show ?thesis using 3 by simp
  next
    case False
    have "\<not> has_ignored (path_join [d, n])"
      using has_ignored_path_join[of d n] 3(3) sn False by simp
    then have "\<forall>x\<in>set (scan_sites (path_join [d, n])
                 (replace_backslashes (path_join [b, strip_group n])) children).
               \<not> has_ignored (path_join [fst x, snd (snd x)])"
      using 3(1)[OF False] 3(4) by simp
    moreover have "\<forall>x\<in>set (scan_sites d b es). \<not> has_ignored (path_join [fst x, snd (snd x)])"
      using 3(2) 3(3,4) by simp
    ultimately show ?thesis using False by auto
  qed
next
  case (4 d b n es)
  then show ?case by simp
next
  case (5 d b n es)
  then show ?case by simp
qed

lemma sites_under:
  assumes "S \<noteq> []" "\<forall>s\<in>set S. plain_segment s"
  shows "d0 = abs_path (S @ ns) \<Longrightarrow> \<forall>n\<in>set ns. plain_segment n \<and> \<not> startsWith n ''_'' \<Longrightarrow>
     list_all plain_entry es \<Longrightarrow> (d, b, n) \<in> set (scan_sites d0 b0 es) \<Longrightarrow>
     \<exists>ms. path_join [d, n] = abs_path (S @ ms) \<and>
          (\<forall>n\<in>set ms. plain_segment n \<and> \<not> startsWith n ''_'')"
proof (induction d0 b0 es arbitrary: ns rule: scan_sites.induct)
  case (1 d b)
  then show ?case by simp
next
  case (2 d0 b0 f es)
  show ?case
  proof (cases "(d, b, n) \<in> set (scan_sites d0 b0 es)")
    case True
    then show ?thesis using 2 by simp
  next
    case False
    then have eq: "d = d0" "n = f" and u: "\<not> startsWith f ''_''"
      using 2(5) by (auto split: if_splits)
    have pf: "plain_segment f" using 2(4) by simp
    have pn: "\<forall>n\<in>set ns. plain_segment n" using 2(3) by simp
    have "path_join [d, n] = abs_path (S @ (ns @ [f]))"
      using path_join_under[OF assms pn pf] 2(2) eq by simp
    moreover have "\<forall>n\<in>set (ns @ [f]). plain_segment n \<and> \<not> startsWith n ''_''"
      using 2(3) pf u by simp
    ultimately show ?thesis by blast
  qed
next
  case (3 d0 b0 f children es)
  show ?case
  proof (cases "(d, b, n) \<in> set (scan_sites d0 b0 es)")
    case True
    then show ?thesis using 3 by simp
  next
    case False
    then have u: "\<not> startsWith f ''_''"
      and m: "(d, b, n) \<in> set (scan_sites (path_join [d0, f])
                (replace_backslashes (path_join [b0, strip_group f])) children)"
      using 3(6) by (auto split: if_splits)
    have pf: "plain_segment f" and ch: "list_all plain_entry children"
      using 3(5) by simp_all
    have pn: "\<forall>n\<in>set ns. plain_segment n" using 3(4) by simp
    have e1: "path_join [d0, f] = abs_path (S @ (ns @ [f]))"
      using path_join_under[OF assms pn pf] 3(3) by simp
    have e2: "\<forall>n\<in>set (ns @ [f]). plain_segment n \<and> \<not> startsWith n ''_''"
      using 3(4) pf u by simp
    show ?thesis using 3(1)[OF u e1 e2 ch m] .
  qed
next
  case (4 d0 b0 f es)
  then show ?case by simp
next
  case (5 d0 b0 f es)
  then show ?case by simp
qed

lemma parse_handlerPath:
  assumes "parseRouteFile e src fp b lm ex = Some (Some r)"
  shows "handlerPath r = fp"
proof (cases "route_file_match (basename fp)")
  case None
  then show ?thesis using assms by (simp add: parseRouteFile_def)
next
  case (Some nm)
  obtain fileName m where nm: "nm = (fileName, m)" by (cases nm)
  show ?thesis
  proof (cases "collect_parent_middlewares (existsSync e) src (dirname fp)
                  (case lm of Some mw \<Rightarrow> [mw] | None \<Rightarrow> [])")
    case None
    then show ?thesis using assms Some nm by (simp add: parseRouteFile_def Let_def)
  next
    case mws: (Some mws)
    then show ?thesis using assms Some nm by (auto simp: parseRouteFile_def Let_def)
  qed
qed

lemma abs_path_append: "abs_path (A @ B) = abs_path A @ abs_path B"
  by (simp add: abs_path_def)

lemma has_ignored_abs_path:
  assumes "\<forall>x\<in>set xs. slash \<notin> set x"
  shows "has_ignored (abs_path xs) \<longleftrightarrow> (\<exists>x\<in>set xs. startsWith x ''_'')"
  using split_abs_path[OF assms] by (simp add: has_ignored_def list_ex_iff)

lemma clean_key_under:
  assumes "\<forall>n\<in>set ms. plain_segment n \<and> \<not> startsWith n ''_''"
  shows "clean_key (abs_path S) (abs_path (S @ ms))"
proof -
  have sf: "\<forall>x\<in>set ms. slash \<notin> set x" using assms by (auto simp: plain_segment_def)
  have "startsWith (abs_path (S @ ms)) (abs_path S)"
    by (simp add: abs_path_append startsWith_iff)
  moreover have "drop (length (abs_path S)) (abs_path (S @ ms)) = abs_path ms"
    by (simp add: abs_path_append)
  moreover have "\<not> has_ignored (abs_path ms)"
    using has_ignored_abs_path[OF sf] assms by simp
  ultimately show ?thesis by (simp add: clean_key_def)
qed

lemma scan_clean:
  assumes "\<not> has_ignored d" "plain_listing e"
    and "scanDirectory e src c d b = Some (c1, Inr rs)"
  shows "\<forall>r\<in>set rs. \<not> has_ignored (handlerPath r)"
proof (cases "readdirSync e d")
  case None
  then have "rs = []" using assms(3) by (auto simp: scanDirectory_def split: if_splits)
  then show ?thesis by simp
next
  case (Some es)
  have sf: "list_all plain_entry es" using assms(2) Some by (auto simp: plain_listing_def)
  have "routes_from e src (scan_sites d b es) (scan_listing e src c d b (Some es))"
    using scan_routes_from_sites(1)[where l="Some es" and e=e and src=src and d=d and b=b and c=c]
    by simp
  then have cf: "\<forall>r\<in>set rs. came_from e src (scan_sites d b es) r"
    using assms(3) Some by (simp add: routes_from_def scanDirectory_def)
  show ?thesis
  proof
    fix r assume "r \<in> set rs"
    then obtain d' b' n ex where s: "(d', b', n) \<in> set (scan_sites d b es)"
      "parseRouteFile e src (path_join [d', n]) b' (local_middleware e d') ex = Some (Some r)"
      using cf unfolding came_from_def by blast
    have "handlerPath r = path_join [d', n]" using parse_handlerPath[OF s(2)] .
    moreover have "\<not> has_ignored (path_join [d', n])"
      using sites_clean[OF assms(1) sf, of b] s(1) by fastforce
    ultimately show "\<not> has_ignored (handlerPath r)" by simp
  qed
qed

lemma scan_source_clean:
  assumes "S \<noteq> []" "\<forall>s\<in>set S. plain_segment s" "plain_listing e"
    and "scanDirectory e src c (abs_path S) b = Some (c1, Inr rs)"
  shows "\<forall>r\<in>set rs. clean_key (abs_path S) (handlerPath r)"
proof (cases "readdirSync e (abs_path S)")
  case None
  then have "rs = []" using assms(4) by (auto simp: scanDirectory_def split: if_splits)
  then show ?thesis by simp
next
  case (Some es)
  have sf: "list_all plain_entry es" using assms(3) Some by (auto simp: plain_listing_def)
  have "routes_from e src (scan_sites (abs_path S) b es) (scan_listing e src c (abs_path S) b (Some es))"
    using scan_routes_from_sites(1)[where l="Some es" and e=e and src=src and d="abs_path S"
        and b=b and c=c]
    by simp
  then have cf: "\<forall>r\<in>set rs. came_from e src (scan_sites (abs_path S) b es) r"
    using assms(4) Some by (simp add: routes_from_def scanDirectory_def)
  show ?thesis
  proof
    fix r assume "r \<in> set rs"
    then obtain d' b' n ex where s: "(d', b', n) \<in> set (scan_sites (abs_path S) b es)"
      "parseRouteFile e src (path_join [d', n]) b' (local_middleware e d') ex = Some (Some r)"
      using cf unfolding came_from_def by blast
    have hp: "handlerPath r = path_join [d', n]" using parse_handlerPath[OF s(2)] .
    have e1: "abs_path S = abs_path (S @ [])" by simp
    have e2: "\<forall>n\<in>set ([] :: string list). plain_segment n \<and> \<not> startsWith n ''_''" by simp
    obtain ms where ms: "path_join [d', n] = abs_path (S @ ms)"
        "\<forall>n\<in>set ms. plain_segment n \<and> \<not> startsWith n ''_''"
      using sites_under[OF assms(1,2) e1 e2 sf s(1)] by blast
    show "clean_key (abs_path S) (handlerPath r)"
      using clean_key_under[OF ms(2), of S] hp ms(1) by simp
  qed
qed

lemma set_routes_keys:
  "fst ` set (set_routes found rs) \<subseteq> fst ` set rs \<union> handlerPath ` set found"
  unfolding set_routes_def
proof (induction found arbitrary: rs)
  case Nil
  then show ?case by simp
next
  case (Cons r found)
  have "fst ` set (AList.update (handlerPath r) r rs) = insert (handlerPath r) (fst ` set rs)"
    by (simp add: dom_update)
  then show ?case using Cons[of "AList.update (handlerPath r) r rs"] by auto
qed

lemma all_subset: "K \<subseteq> K' \<Longrightarrow> \<forall>k\<in>K'. P k \<Longrightarrow> \<forall>k\<in>K. P k"
  by blast

lemma all_subset_Un:
  "K \<subseteq> A \<union> B \<Longrightarrow> \<forall>k\<in>A. P k \<Longrightarrow> \<forall>k\<in>B. P k \<Longrightarrow> \<forall>k\<in>K. P k"
  by blast

lemma all_image: "\<forall>r\<in>R. P (f r) \<Longrightarrow> \<forall>k\<in>f ` R. P k"
  by blast

lemma rebuild_begin_keeps:
  "rebuild_begin e b = (b1, newApp) \<Longrightarrow> routes b1 = routes b \<and> config b1 = config b"
  by (auto simp: rebuild_begin_def split: prod.splits)

lemma rebuildApp_keeps: "routes (rebuildApp e b) = routes b \<and> config (rebuildApp e b) = config b"
proof -
  obtain b1 newApp where rb: "rebuild_begin e b = (b1, newApp)" by (cases "rebuild_begin e b")
  have "rebuildApp e b = rebuild_finish b1 newApp" using rb by (simp add: rebuildApp_def)
  then show ?thesis using rebuild_begin_keeps[OF rb] by (simp add: rebuild_finish_def)
qed

lemma clean_table_iff:
  "clean_table b \<longleftrightarrow> (\<forall>k\<in>fst ` set (routes b). clean_key (source_dir b) k)"
  by (auto simp: clean_table_def list_all_iff)

lemma clean_table_rebuildApp:
  assumes "\<forall>k\<in>fst ` set (routes b). clean_key (source_dir b) k"
  shows "clean_table (rebuildApp e b) \<and> source_dir (rebuildApp e b) = source_dir b"
  using assms rebuildApp_keeps[of e b] by (simp add: clean_table_iff source_dir_def)

lemma delete_routes_under_keys: "set (delete_routes_under d rs) \<subseteq> set rs"
  by (auto simp: delete_routes_under_def)

lemma handleFileRemoval_clean:
  assumes "clean_table b"
  shows "clean_table (handleFileRemoval e b p) \<and> source_dir (handleFileRemoval e b p) = source_dir b"
proof (cases "has_route b p")
  case False
  then show ?thesis using assms by (simp add: handleFileRemoval_def)
next
  case True
  let ?b = "b\<lparr>routes := AList.delete p (routes b)\<rparr>"
  have sub: "fst ` set (routes ?b) \<subseteq> fst ` set (routes b)"
    using dom_delete_subset[of p "routes b"] by simp
  have sd: "source_dir ?b = source_dir b" by (simp add: source_dir_def)
  have "\<forall>k\<in>fst ` set (routes ?b). clean_key (source_dir b) k"
    using assms unfolding clean_table_iff by (rule all_subset[OF sub])
  then have "\<forall>k\<in>fst ` set (routes ?b). clean_key (source_dir ?b) k"
    unfolding sd .
  then show ?thesis using clean_table_rebuildApp[of ?b e] True sd by (simp add: handleFileRemoval_def)
qed

lemma handleDirectoryRemoval_clean:
  assumes "clean_table b"
  shows "clean_table (handleDirectoryRemoval e b p) \<and>
         source_dir (handleDirectoryRemoval e b p) = source_dir b"
proof -
  let ?b = "b\<lparr>routes := delete_routes_under p (routes b)\<rparr>"
  have sub: "fst ` set (routes ?b) \<subseteq> fst ` set (routes b)"
    using delete_routes_under_keys[of p "routes b"] by auto
  have sd: "source_dir ?b = source_dir b" by (simp add: source_dir_def)
  have "\<forall>k\<in>fst ` set (routes ?b). clean_key (source_dir b) k"
    using assms unfolding clean_table_iff by (rule all_subset[OF sub])
  then have "\<forall>k\<in>fst ` set (routes ?b). clean_key (source_dir ?b) k"
    unfolding sd .
  then show ?thesis using clean_table_rebuildApp[of ?b e] sd by (simp add: handleDirectoryRemoval_def)
qed

lemma rebuildDirectoryRoutes_clean:
  assumes "clean_table b" "\<not> has_ignored d" "plain_listing e"
    and "rebuildDirectoryRoutes e b d = Some (b1, err)"
  shows "clean_table b1 \<and> source_dir b1 = source_dir b"
proof -
  let ?kept = "delete_routes_under d (routes b)"
  let ?b = "b\<lparr>routes := ?kept\<rparr>"
  let ?scan = "scanDirectory e (source_dir ?b) (expectationsCache ?b) d []"
  have sd: "source_dir ?b = source_dir b" by (simp add: source_dir_def)
  have ksub: "fst ` set ?kept \<subseteq> fst ` set (routes b)"
    using delete_routes_under_keys[of d "routes b"] by auto
  have kept: "\<forall>k\<in>fst ` set ?kept. clean_key (source_dir b) k"
    using assms(1) unfolding clean_table_iff by (rule all_subset[OF ksub])
  have rd: "rebuildDirectoryRoutes e b d =
      (case ?scan of None \<Rightarrow> None
       | Some (c, Inl err) \<Rightarrow> Some (?b\<lparr>expectationsCache := c\<rparr>, Some err)
       | Some (c, Inr found) \<Rightarrow>
           Some (rebuildApp e (?b\<lparr>expectationsCache := c, routes := set_routes found (routes ?b)\<rparr>),
                 None))"
    by (simp add: rebuildDirectoryRoutes_def Let_def)
  show ?thesis
  proof (cases ?scan)
    case None
    then show ?thesis using assms(4) rd by simp
  next
    case (Some cr)
    obtain c res where cr: "cr = (c, res)" by (cases cr)
    show ?thesis
    proof (cases res)
      case (Inl e1)
      then have b1: "b1 = ?b\<lparr>expectationsCache := c\<rparr>" using assms(4) rd Some cr by simp
      have "routes b1 = ?kept" "source_dir b1 = source_dir b"
        using b1 by (simp_all add: source_dir_def)
      then show ?thesis using kept by (simp add: clean_table_iff)
    next
      case (Inr rs)
      let ?b2 = "?b\<lparr>expectationsCache := c, routes := set_routes rs (routes ?b)\<rparr>"
      have b1: "b1 = rebuildApp e ?b2" using assms(4) rd Some cr Inr by simp
      have sd2: "source_dir ?b2 = source_dir b" by (simp add: source_dir_def)
      have sc: "scanDirectory e (source_dir ?b) (expectationsCache ?b) d [] = Some (c, Inr rs)"
        using Some cr Inr by simp
      have new: "\<forall>r\<in>set rs. \<not> has_ignored (handlerPath r)"
        using scan_clean[OF assms(2,3) sc] .
      have sub: "fst ` set (routes ?b2) \<subseteq> fst ` set ?kept \<union> handlerPath ` set rs"
        using set_routes_keys[of rs ?kept] by simp
      have "\<forall>r\<in>set rs. clean_key (source_dir b) (handlerPath r)"
        using new by (simp add: clean_key_def)
      then have new': "\<forall>k\<in>handlerPath ` set rs. clean_key (source_dir b) k"
        by (rule all_image)
      have "\<forall>k\<in>fst ` set (routes ?b2). clean_key (source_dir b) k"
        using sub kept new' by (rule all_subset_Un)
      then have "\<forall>k\<in>fst ` set (routes ?b2). clean_key (source_dir ?b2) k"
        unfolding sd2 .
      then show ?thesis using clean_table_rebuildApp[of ?b2 e] b1 sd2 by simp
    qed
  qed
qed

lemma not_ignored_path: "\<not> ignored p st \<Longrightarrow> \<not> has_ignored p"
  by (auto simp: ignored_def has_ignored_def split: if_splits)

lemma handleFileChange_clean:
  assumes "clean_table b" "\<not> has_ignored p" "plain_listing e"
    and "handleFileChange e b p = Some (b1, err)"
  shows "clean_table b1 \<and> source_dir b1 = source_dir b"
proof -
  have d: "\<not> has_ignored (dirname p)" using assms(2) has_ignored_dirname by blast
  consider (mw) "basename p = ''middleware.ts''"
    | (ex) "basename p \<noteq> ''middleware.ts''" "basename p = ''expectations.ts''"
    | (reg) "basename p \<noteq> ''middleware.ts''" "basename p \<noteq> ''expectations.ts''"
    by blast
  then show ?thesis
  proof cases
    case mw
    then have "rebuildDirectoryRoutes e b (dirname p) = Some (b1, err)"
      using assms(4) by (simp add: handleFileChange_def)
    then show ?thesis using rebuildDirectoryRoutes_clean[OF assms(1) d assms(3)] by simp
  next
    case ex
    let ?b = "b\<lparr>expectationsCache := (expectationsCache b)(dirname p := None)\<rparr>"
    have r: "rebuildDirectoryRoutes e ?b (dirname p) = Some (b1, err)"
      using assms(4) ex by (simp add: handleFileChange_def)
    have c: "clean_table ?b" using assms(1) by (simp add: clean_table_def source_dir_def)
    have "source_dir ?b = source_dir b" by (simp add: source_dir_def)
    then show ?thesis using rebuildDirectoryRoutes_clean[OF c d assms(3) r] by simp
  next
    case reg
    have hf: "handleFileChange e b p =
        (case parseRouteFile e (source_dir b) p [] None None of
           None \<Rightarrow> None
         | Some None \<Rightarrow> Some (b, None)
         | Some (Some route) \<Rightarrow>
             (case applyRouteToApp e (middlewareCache b) route (app b, server_ops b) of
                (mc, (a, ops)) \<Rightarrow>
                  Some (b\<lparr>routes := AList.update p route (routes b),
                          middlewareCache := mc, app := a, server_ops := ops\<rparr>,
                        None)))"
      using reg by (simp add: handleFileChange_def)
    show ?thesis
    proof (cases "parseRouteFile e (source_dir b) p [] None None")
      case None
      then show ?thesis using assms(4) hf by simp
    next
      case (Some o1)
      show ?thesis
      proof (cases o1)
        case None
        then show ?thesis using assms(1,4) hf Some by simp
      next
        case r: (Some r)
        obtain mc a ops where ar:
          "applyRouteToApp e (middlewareCache b) r (app b, server_ops b) = (mc, (a, ops))"
          by (cases "applyRouteToApp e (middlewareCache b) r (app b, server_ops b)") auto
        have b1: "b1 = b\<lparr>routes := AList.update p r (routes b),
                          middlewareCache := mc, app := a, server_ops := ops\<rparr>"
          using assms(4) hf Some r ar by simp
        have rt: "fst ` set (routes b1) = {p} \<union> fst ` set (routes b)"
          using b1 by (simp add: dom_update)
        have sd: "source_dir b1 = source_dir b" using b1 by (simp add: source_dir_def)
        have "clean_key (source_dir b) p" using assms(2) by (simp add: clean_key_def)
        then have "\<forall>k\<in>{p}. clean_key (source_dir b) k" by simp
        moreover have "\<forall>k\<in>fst ` set (routes b). clean_key (source_dir b) k"
          using assms(1) unfolding clean_table_iff .
        ultimately have "\<forall>k\<in>fst ` set (routes b1). clean_key (source_dir b) k"
          unfolding rt by blast
        then show ?thesis using sd unfolding clean_table_iff by simp
      qed
    qed
  qed
qed

lemma setupWatchers_clean:
  assumes "clean_table b" "watcher_emits ev" "plain_listing e"
    and "setupWatchers e b ev = Some (b1, err)"
  shows "clean_table b1 \<and> source_dir b1 = source_dir b"
proof (cases ev)
  case (Add p)
  have "\<not> has_ignored p" using assms(2) Add not_ignored_path[of p "Some True"] by simp
  then show ?thesis using handleFileChange_clean[OF assms(1) _ assms(3), of p b1 err] assms(4) Add
    by simp
next
  case (Change p)
  have "\<not> has_ignored p" using assms(2) Change not_ignored_path[of p "Some True"] by simp
  then show ?thesis using handleFileChange_clean[OF assms(1) _ assms(3), of p b1 err] assms(4) Change
    by simp
next
  case (Unlink p)
  then have "b1 = handleFileRemoval e b p" using assms(4) by simp
  then show ?thesis using handleFileRemoval_clean[OF assms(1), of e p] by simp
next
  case (UnlinkDir p)
  then have "b1 = handleDirectoryRemoval e b p" using assms(4) by simp
  then show ?thesis using handleDirectoryRemoval_clean[OF assms(1), of e p] by simp
next
  case WatcherError
  then show ?thesis using assms by simp
qed

lemma react_clean:
  "clean_table b \<Longrightarrow> \<forall>x\<in>set evs. plain_listing (fst x) \<Longrightarrow> react b evs = Some b2 \<Longrightarrow>
   clean_table b2 \<and> source_dir b2 = source_dir b"
proof (induction evs arbitrary: b)
  case Nil
  then show ?case by simp
next
  case (Cons x evs)
  obtain e ev where x: "x = (e, ev)" by (cases x)
  have sane: "plain_listing e" "\<forall>x\<in>set evs. plain_listing (fst x)"
    using Cons.prems(2) x by simp_all
  show ?case
  proof (cases "watcher_emits ev")
    case False
    then have "react b evs = Some b2" using Cons.prems(3) x by simp
    then show ?thesis using Cons.IH[OF Cons.prems(1) sane(2)] by simp
  next
    case True
    show ?thesis
    proof (cases "setupWatchers e b ev")
      case None
      then show ?thesis using Cons.prems(3) x True by simp
    next
      case (Some res)
      obtain b1 err where res: "res = (b1, err)" by (cases res)
      have s: "setupWatchers e b ev = Some (b1, err)" using Some res by simp
      have r: "react b1 evs = Some b2" using Cons.prems(3) x True s by simp
      have c1: "clean_table b1" and sd: "source_dir b1 = source_dir b"
        using setupWatchers_clean[OF Cons.prems(1) True sane(1) s] by simp_all
      show ?thesis using Cons.IH[OF c1 sane(2) r] sd by simp
    qed
  qed
qed

lemma buildRoutes_clean:
  assumes "source_dir b = abs_path S" "S \<noteq> []" "\<forall>s\<in>set S. plain_segment s"
    and "routes b = []" and "plain_listing e"
    and "buildRoutes e b = Some b1"
  shows "clean_table b1 \<and> source_dir b1 = source_dir b"
proof (cases "scanDirectory e (source_dir b) (expectationsCache b) (source_dir b) []")
  case None
  then show ?thesis using assms(6) by (simp add: buildRoutes_def)
next
  case (Some cr)
  obtain c res where cr: "cr = (c, res)" by (cases cr)
  show ?thesis
  proof (cases res)
    case (Inl e1)
    then have "b1 = b\<lparr>expectationsCache := c\<rparr>" using assms(6) Some cr by (simp add: buildRoutes_def)
    then have "routes b1 = []" "source_dir b1 = source_dir b"
      using assms(4) by (simp_all add: source_dir_def)
    then show ?thesis by (simp add: clean_table_def)
  next
    case (Inr rs)
    let ?b2 = "b\<lparr>expectationsCache := c, routes := set_routes rs []\<rparr>"
    have b1: "b1 = rebuildApp e ?b2" using assms(6) Some cr Inr by (simp add: buildRoutes_def)
    have sd2: "source_dir ?b2 = source_dir b" by (simp add: source_dir_def)
    have sc: "scanDirectory e (source_dir b) (expectationsCache b) (abs_path S) [] = Some (c, Inr rs)"
      using Some cr Inr assms(1) by simp
    have new: "\<forall>r\<in>set rs. clean_key (abs_path S) (handlerPath r)"
      using scan_source_clean[OF assms(2,3,5) sc] .
    have sub: "fst ` set (routes ?b2) \<subseteq> handlerPath ` set rs"
      using set_routes_keys[of rs "[]"] by simp
    have new': "\<forall>k\<in>handlerPath ` set rs. clean_key (abs_path S) k"
      using new by (rule all_image)
    have "\<forall>k\<in>fst ` set (routes ?b2). clean_key (abs_path S) k"
      using new' by (rule all_subset[OF sub])
    then have "\<forall>k\<in>fst ` set (routes ?b2). clean_key (source_dir ?b2) k"
      unfolding sd2 assms(1) .
    then show ?thesis using clean_table_rebuildApp[of ?b2 e] b1 sd2 by simp
  qed
qed

text \<open>
  Claim C8. Let the source directory be the normalized absolute path \<open>S\<close>, the table
  empty before \<open>start\<close>, and every listing hold names as a file system has them. After
  \<open>start\<close> and any sequence of events, every key of the table is clean: no file or
  directory on the way from the source directory to a file of the table begins with
  \<open>_\<close>.
\<close>

theorem underscore_entries_never_routed:
  assumes "source_dir b = abs_path S" and "S \<noteq> []" and "\<forall>s\<in>set S. plain_segment s"
    and "routes b = []"
    and "plain_listing e0" and "\<forall>x\<in>set evs. plain_listing (fst x)"
    and "started_then e0 b evs = Some b2"
  shows "list_all (clean_key (source_dir b)) (map fst (routes b2))"
proof (cases "start e0 b")
  case None
  then show ?thesis using assms(7) by (simp add: started_then_def)
next
  case (Some b1)
  have r: "react b1 evs = Some b2" using assms(7) Some by (simp add: started_then_def)
  have "buildRoutes e0 b = Some b1" using Some by (simp add: start_def)
  then have c1: "clean_table b1" and sd1: "source_dir b1 = source_dir b"
    using buildRoutes_clean[OF assms(1,2,3,4,5)] by simp_all
  have c2: "clean_table b2" and sd2: "source_dir b2 = source_dir b1"
    using react_clean[OF c1 assms(6) r] by simp_all
  have "list_all (clean_key (source_dir b2)) (map fst (routes b2))"
    using c2 unfolding clean_table_def .
  then show ?thesis unfolding sd2 sd1 .
qed

text \<open>
  The example: of the five handlers of the tree and the three of the events, the table
  holds the three on whose way no name begins with \<open>_\<close>.
\<close>

lemma underscore_run:
  "map_option (map fst \<circ> routes)
     (started_then underscore_env (demo_builder []) underscore_events) =
   Some [''/app/src/a.get.ts'', ''/app/src/users/list.get.ts'', ''/app/src/b.get.ts'']"
  by code_simp

theorem underscore_entries_never_routed_witness:
  "source_dir (demo_builder []) = abs_path [''app'', ''src''] \<and>
   list_all plain_segment [''app'', ''src''] \<and>
   routes (demo_builder []) = [] \<and>
   plain_listing underscore_env \<and>
   list_all (\<lambda>x. plain_listing (fst x)) underscore_events \<and>
   (\<exists>b2. started_then underscore_env (demo_builder []) underscore_events = Some b2 \<and>
         list_all (clean_key (source_dir (demo_builder []))) (map fst (routes b2)) \<and>
         map fst (routes b2) =
           [''/app/src/a.get.ts'', ''/app/src/users/list.get.ts'', ''/app/src/b.get.ts''])"
proof -
  have h1: "source_dir (demo_builder []) = abs_path [''app'', ''src'']"
    by (simp add: source_dir_def demo_builder_def abs_path_def slash_def)
  have h2: "[''app'', ''src''] \<noteq> []" by simp
  have h3: "\<forall>s\<in>set [''app'', ''src'']. plain_segment s"
    by (simp add: plain_segment_def slash_def)
  have h3': "list_all plain_segment [''app'', ''src'']" using h3 by (simp add: list_all_iff)
  have h4: "routes (demo_builder []) = []" by (simp add: demo_builder_def)
  have h5: "plain_listing underscore_env"
    by (auto simp: plain_listing_def underscore_env_def demo_env_def underscore_tree_def
        plain_segment_def slash_def split: if_splits)
  have h6: "\<forall>x\<in>set underscore_events. plain_listing (fst x)"
    using h5 by (simp add: underscore_events_def)
  have h6': "list_all (\<lambda>x. plain_listing (fst x)) underscore_events"
    using h6 by (simp add: list_all_iff)
  obtain b2 where b2: "started_then underscore_env (demo_builder []) underscore_events = Some b2"
    and keys: "map fst (routes b2) =
           [''/app/src/a.get.ts'', ''/app/src/users/list.get.ts'', ''/app/src/b.get.ts'']"
    using underscore_run
    by (cases "started_then underscore_env (demo_builder []) underscore_events") simp_all
  note t = underscore_entries_never_routed [OF h1 h2 h3 h4 h5 h6 b2]
  have ex: "\<exists>b2. started_then underscore_env (demo_builder []) underscore_events = Some b2 \<and>
         list_all (clean_key (source_dir (demo_builder []))) (map fst (routes b2)) \<and>
         map fst (routes b2) =
           [''/app/src/a.get.ts'', ''/app/src/users/list.get.ts'', ''/app/src/b.get.ts'']"
    by (intro exI[of _ b2] conjI) (rule b2 t keys)+
  show ?thesis
    by (intro conjI) (rule h1 h3' h4 h5 h6' ex)+
qed

section \<open>Reactions that overlap\<close>











end
